theory Spec2Isabelle
  imports Complex_Main "HOL-Library.AList"
begin

section \<open>Python values\<close>

text \<open>
  The payloads that travel along the edges of a workflow are JSON values. A Python
  \<^verbatim>\<open>dict\<close> keeps its keys in insertion order, so it is an association list: a
  lookup is \<^const>\<open>map_of\<close>, an assignment \<^verbatim>\<open>d[k] = v\<close> is \<^const>\<open>AList.update\<close> (the
  value is replaced where the key stands, a new key goes to the end). Numbers are
  Python's unbounded integers; floating-point payloads are not part of this model.
  A character is one of the code points 0 to 255.
\<close>

datatype json =
    JNone
  | JBool bool
  | JInt int
  | JStr string
  | JList "json list"
  | JDict "(string \<times> json) list"

type_synonym 'v dict = "(string \<times> 'v) list"

text \<open>
  The exceptions of the modelled code, each with the argument it is raised with. All are
  subclasses of \<^verbatim>\<open>Exception\<close>, which the handlers \<^verbatim>\<open>except Exception\<close> of the engine catch.
\<close>

datatype error =
    KeyError string
  | ValueError string
  | TypeError string
  | AttributeError string
  | NodeExecutionError string
  | StopIteration
  | Raised string string

text \<open>Truth value of a Python object, as \<^verbatim>\<open>if x:\<close> and \<^verbatim>\<open>x or y\<close> read it.\<close>

fun truthy :: "json \<Rightarrow> bool" where
  "truthy JNone = False"
| "truthy (JBool b) = b"
| "truthy (JInt i) = (i \<noteq> 0)"
| "truthy (JStr s) = (s \<noteq> [])"
| "truthy (JList xs) = (xs \<noteq> [])"
| "truthy (JDict d) = (d \<noteq> [])"

subsection \<open>\<^verbatim>\<open>repr\<close> and \<^verbatim>\<open>str\<close>\<close>

text \<open>
  \<^verbatim>\<open>repr\<close> of a string: double quotes when the string holds a single quote and no
  double quote, single quotes otherwise; the quote and the backslash are escaped, tab,
  newline and carriage return are written \<^verbatim>\<open>\t\<close>, \<^verbatim>\<open>\n\<close>, \<^verbatim>\<open>\r\<close>, and every other
  character that is not printable as \<^verbatim>\<open>\xNN\<close>.
\<close>

definition hex_digit :: "nat \<Rightarrow> char" where
  "hex_digit n = ''0123456789abcdef'' ! (n mod 16)"

definition printable :: "char \<Rightarrow> bool" where
  "printable c = (let n = (of_char c :: nat) in (32 \<le> n \<and> n < 127) \<or> (161 \<le> n \<and> n \<noteq> 173))"

definition repr_char :: "char \<Rightarrow> char \<Rightarrow> string" where
  "repr_char quote c =
     (if c = quote \<or> c = CHR 0x5C then [CHR 0x5C, c]
      else if c = CHR 0x09 then [CHR 0x5C, CHR ''t'']
      else if c = CHR 0x0A then [CHR 0x5C, CHR ''n'']
      else if c = CHR 0x0D then [CHR 0x5C, CHR ''r'']
      else if printable c then [c]
      else [CHR 0x5C, CHR ''x'', hex_digit (of_char c div 16), hex_digit (of_char c)])"

definition py_repr_str :: "string \<Rightarrow> string" where
  "py_repr_str s =
     (let quote = (if CHR 0x27 \<in> set s \<and> CHR 0x22 \<notin> set s then CHR 0x22 else CHR 0x27)
      in quote # concat (map (repr_char quote) s) @ [quote])"

text \<open>The decimal digits of a natural number, and \<^verbatim>\<open>str\<close> of an integer.\<close>

fun str_nat :: "nat \<Rightarrow> string" where
  "str_nat n = (if n < 10 then [hex_digit n] else str_nat (n div 10) @ [hex_digit (n mod 10)])"

declare str_nat.simps [simp del]

definition str_int :: "int \<Rightarrow> string" where
  "str_int i = (if i < 0 then CHR ''-'' # str_nat (nat (- i)) else str_nat (nat i))"

text \<open>\<^verbatim>\<open>sep.join(parts)\<close>.\<close>

fun join :: "string \<Rightarrow> string list \<Rightarrow> string" where
  "join sep [] = []"
| "join sep [x] = x"
| "join sep (x # y # ys) = x @ sep @ join sep (y # ys)"

fun py_repr :: "json \<Rightarrow> string" where
  "py_repr JNone = ''None''"
| "py_repr (JBool b) = (if b then ''True'' else ''False'')"
| "py_repr (JInt i) = str_int i"
| "py_repr (JStr s) = py_repr_str s"
| "py_repr (JList xs) = ''['' @ join '', '' (map py_repr xs) @ '']''"
| "py_repr (JDict d) =
     ''{'' @ join '', '' (map (\<lambda>kv. py_repr_str (fst kv) @ '': '' @ py_repr (snd kv)) d) @ ''}''"

definition py_str :: "json \<Rightarrow> string" where
  "py_str v = (case v of JStr s \<Rightarrow> s | _ \<Rightarrow> py_repr v)"

text \<open>\<^verbatim>\<open>str(e)\<close> of an exception: the message, or the \<^verbatim>\<open>repr\<close> of the key of a \<^verbatim>\<open>KeyError\<close>.\<close>

fun error_str :: "error \<Rightarrow> string" where
  "error_str (KeyError k) = py_repr_str k"
| "error_str (ValueError m) = m"
| "error_str (TypeError m) = m"
| "error_str (AttributeError m) = m"
| "error_str (NodeExecutionError m) = m"
| "error_str StopIteration = []"
| "error_str (Raised c m) = m"

section \<open>The workflow graph\<close>

text \<open>
  A node is \<^verbatim>\<open>{'id': ..., 'data': {'type': ..., 'properties': {...}}}\<close>; an edge is
  \<^verbatim>\<open>{'source': ..., 'target': ..., 'sourceHandle'?: ..., 'targetHandle'?: ...}\<close>, where
  an absent handle is \<^const>\<open>None\<close>.
\<close>

record node =
  node_id :: string
  node_type :: string
  properties :: "json dict"

record edge =
  source :: string
  target :: string
  sourceHandle :: "string option"
  targetHandle :: "string option"

subsection \<open>\<^verbatim>\<open>WorkflowExecutionEngine._topological_sort\<close>\<close>

text \<open>The comprehension \<^verbatim>\<open>{node['id']: v for node in nodes}\<close>.\<close>

definition init_dict :: "'v \<Rightarrow> node list \<Rightarrow> 'v dict" where
  "init_dict v nodes = foldl (\<lambda>d n. AList.update (node_id n) v d) [] nodes"

text \<open>
  The loop over the edges: \<^verbatim>\<open>adjacency[source].append(target)\<close> and
  \<^verbatim>\<open>in_degree[target] += 1\<close>, each raising \<^verbatim>\<open>KeyError\<close> on an id that is not a node's.
\<close>

fun add_edges :: "edge list \<Rightarrow> int dict \<times> string list dict \<Rightarrow> error + (int dict \<times> string list dict)" where
  "add_edges [] (in_degree, adjacency) = Inr (in_degree, adjacency)"
| "add_edges (e # es) (in_degree, adjacency) =
     (case map_of adjacency (source e) of
        None \<Rightarrow> Inl (KeyError (source e))
      | Some ts \<Rightarrow>
         (case map_of in_degree (target e) of
            None \<Rightarrow> Inl (KeyError (target e))
          | Some d \<Rightarrow>
              add_edges es (AList.update (target e) (d + 1) in_degree,
                            AList.update (source e) (ts @ [target e]) adjacency)))"

text \<open>
  The inner loop \<^verbatim>\<open>for neighbor in adjacency[current]\<close>: the in-degree of the neighbour
  goes down by one, and the neighbour joins the queue when it reaches zero.
\<close>

fun relax :: "string list \<Rightarrow> int dict \<times> string list \<Rightarrow> error + (int dict \<times> string list)" where
  "relax [] (in_degree, queue) = Inr (in_degree, queue)"
| "relax (neighbor # ns) (in_degree, queue) =
     (case map_of in_degree neighbor of
        None \<Rightarrow> Inl (KeyError neighbor)
      | Some d \<Rightarrow>
          relax ns (AList.update neighbor (d - 1) in_degree,
                    if d - 1 = 0 then queue @ [neighbor] else queue))"

text \<open>The number of entries of \<^verbatim>\<open>in_degree\<close> that are still positive.\<close>

definition pending :: "int dict \<Rightarrow> nat" where
  "pending in_degree = length (filter (\<lambda>kd. 0 < snd kd) in_degree)"

lemma pending_update:
  "map_of in_degree k = Some d \<Longrightarrow>
   pending (AList.update k (d - 1) in_degree) + (if d = 1 then 1 else 0) = pending in_degree"
  unfolding pending_def
  by (induction in_degree) (auto split: if_splits)

lemma relax_measure:
  "relax ns (in_degree, queue) = Inr (in_degree', queue') \<Longrightarrow>
   length queue' + pending in_degree' = length queue + pending in_degree"
proof (induction ns arbitrary: in_degree queue)
  case Nil
  then show ?case by simp
next
  case (Cons n ns)
  from Cons.prems obtain d where d: "map_of in_degree n = Some d"
    by (auto split: option.splits)
  let ?ind = "AList.update n (d - 1) in_degree"
  let ?q = "if d - 1 = 0 then queue @ [n] else queue"
  from Cons.prems d have "relax ns (?ind, ?q) = Inr (in_degree', queue')"
    by simp
  then have "length queue' + pending in_degree' = length ?q + pending ?ind"
    by (rule Cons.IH)
  moreover have "length ?q + pending ?ind = length queue + pending in_degree"
    using pending_update [OF d] by (auto split: if_splits)
  ultimately show ?case by simp
qed

text \<open>
  The loop \<^verbatim>\<open>while queue\<close>: \<^verbatim>\<open>queue.pop(0)\<close> takes the head, the node is appended to
  the order, and its neighbours are relaxed.
\<close>

function kahn_loop :: "string list dict \<Rightarrow> string list \<Rightarrow> int dict \<Rightarrow> string list \<Rightarrow> error + string list" where
  "kahn_loop adjacency [] in_degree execution_order = Inr execution_order"
| "kahn_loop adjacency (current # queue) in_degree execution_order =
     (case map_of adjacency current of
        None \<Rightarrow> Inl (KeyError current)
      | Some ns \<Rightarrow>
         (case relax ns (in_degree, queue) of
            Inl e \<Rightarrow> Inl e
          | Inr (in_degree', queue') \<Rightarrow>
              kahn_loop adjacency queue' in_degree' (execution_order @ [current])))"
  by pat_completeness auto
termination
  by (relation "measure (\<lambda>(adjacency, queue, in_degree, execution_order). length queue + pending in_degree)")
     (auto dest: relax_measure)

definition topological_sort :: "node list \<Rightarrow> edge list \<Rightarrow> error + string list" where
  "topological_sort nodes edges =
     (case add_edges edges (init_dict 0 nodes, init_dict [] nodes) of
        Inl e \<Rightarrow> Inl e
      | Inr (in_degree, adjacency) \<Rightarrow>
         (case kahn_loop adjacency (map fst (filter (\<lambda>kd. snd kd = 0) in_degree)) in_degree [] of
            Inl e \<Rightarrow> Inl e
          | Inr execution_order \<Rightarrow>
              if length execution_order \<noteq> length nodes
              then Inl (ValueError ''Workflow contains cycles or unreachable nodes'')
              else Inr execution_order))"

section \<open>The execution context\<close>

text \<open>
  \<^verbatim>\<open>ExecutionContext\<close>, without its clock readings (\<^verbatim>\<open>start_time\<close>, \<^verbatim>\<open>end_time\<close> and the
  \<^verbatim>\<open>timestamp\<close>, \<^verbatim>\<open>startTime\<close>, \<^verbatim>\<open>endTime\<close> entries of a node state). A node state is the
  dictionary the code builds: \<^verbatim>\<open>status\<close> and the keyword arguments \<^verbatim>\<open>output\<close>, \<^verbatim>\<open>input\<close>
  and \<^verbatim>\<open>error\<close>.
\<close>

record execution_context =
  workflow_id :: string
  execution_id :: string
  node_results :: "json dict"
  node_states :: "json dict dict"
  execution_order :: "string list"
  errors :: "string dict"
  status :: string
  trigger_data :: json
  credentials :: json
  chat_response :: json

definition new_context :: "string \<Rightarrow> string \<Rightarrow> execution_context" where
  "new_context wid eid =
     \<lparr>workflow_id = wid, execution_id = eid, node_results = [], node_states = [],
      execution_order = [], errors = [], status = ''running'', trigger_data = JDict [],
      credentials = JDict [], chat_response = JNone\<rparr>"

text \<open>\<^verbatim>\<open>{**a, **b}\<close> and \<^verbatim>\<open>a.update(b)\<close>: the entries of \<open>b\<close> are assigned in their order.\<close>

definition dict_merge :: "'v dict \<Rightarrow> 'v dict \<Rightarrow> 'v dict" where
  "dict_merge a b = foldl (\<lambda>d kv. AList.update (fst kv) (snd kv) d) a b"

definition set_node_state :: "execution_context \<Rightarrow> string \<Rightarrow> string \<Rightarrow> json dict \<Rightarrow> execution_context" where
  "set_node_state c nid st kwargs =
     (let existing_state = (case map_of (node_states c) nid of None \<Rightarrow> [] | Some x \<Rightarrow> x)
      in c\<lparr>node_states :=
             AList.update nid (dict_merge (AList.update ''status'' (JStr st) existing_state) kwargs)
               (node_states c)\<rparr>)"

definition set_node_result :: "execution_context \<Rightarrow> string \<Rightarrow> json \<Rightarrow> execution_context" where
  "set_node_result c nid result = c\<lparr>node_results := AList.update nid result (node_results c)\<rparr>"

definition set_node_error :: "execution_context \<Rightarrow> string \<Rightarrow> string \<Rightarrow> execution_context" where
  "set_node_error c nid err =
     set_node_state (c\<lparr>errors := AList.update nid err (errors c)\<rparr>) nid ''error''
       [(''error'', JStr err)]"

definition get_node_result :: "execution_context \<Rightarrow> string \<Rightarrow> json" where
  "get_node_result c nid = (case map_of (node_results c) nid of None \<Rightarrow> JNone | Some r \<Rightarrow> r)"

definition complete :: "execution_context \<Rightarrow> string \<Rightarrow> execution_context" where
  "complete c st = c\<lparr>status := st\<rparr>"

text \<open>The status a context records for a node, if it has a state for it.\<close>

definition node_status :: "execution_context \<Rightarrow> string \<Rightarrow> json option" where
  "node_status c nid =
     (case map_of (node_states c) nid of None \<Rightarrow> None | Some st \<Rightarrow> map_of st ''status'')"

section \<open>The execution engine\<close>

subsection \<open>\<^verbatim>\<open>WorkflowExecutionEngine._get_node_inputs\<close>\<close>

definition source_output :: "edge \<Rightarrow> string" where
  "source_output e = (case sourceHandle e of None \<Rightarrow> ''main'' | Some h \<Rightarrow> h)"

definition target_input :: "edge \<Rightarrow> string" where
  "target_input e = (case targetHandle e of None \<Rightarrow> ''main'' | Some h \<Rightarrow> h)"

text \<open>
  What an edge carries: nothing when the result of its source is falsy (or absent), else
  the entry of the result under the source handle when the result is a dictionary that
  has it, else the result itself.
\<close>

definition edge_payload :: "execution_context \<Rightarrow> edge \<Rightarrow> json option" where
  "edge_payload c e =
     (let source_result = get_node_result c (source e)
      in if truthy source_result
         then Some (case source_result of
                      JDict d \<Rightarrow> (case map_of d (source_output e) of
                                    Some v \<Rightarrow> v
                                  | None \<Rightarrow> source_result)
                    | _ \<Rightarrow> source_result)
         else None)"

text \<open>The loop over the edges; the state is \<^verbatim>\<open>inputs\<close> and \<^verbatim>\<open>main_inputs\<close>.\<close>

fun gather_inputs :: "string \<Rightarrow> execution_context \<Rightarrow> edge list \<Rightarrow> json dict \<times> (string \<times> json) list \<Rightarrow> json dict \<times> (string \<times> json) list" where
  "gather_inputs nid c [] (inputs, main_inputs) = (inputs, main_inputs)"
| "gather_inputs nid c (e # es) (inputs, main_inputs) =
     (if target e = nid
      then (case edge_payload c e of
              None \<Rightarrow> gather_inputs nid c es (inputs, main_inputs)
            | Some output_data \<Rightarrow>
                if target_input e = ''main''
                then gather_inputs nid c es
                       (AList.update (source e) output_data inputs,
                        main_inputs @ [(source e, output_data)])
                else gather_inputs nid c es
                       (AList.update (target_input e) output_data inputs, main_inputs))
      else gather_inputs nid c es (inputs, main_inputs))"

text \<open>The loop that merges several inputs of \<^verbatim>\<open>main\<close> into \<^verbatim>\<open>merged_main\<close>.\<close>

fun merge_main :: "(string \<times> json) list \<Rightarrow> json dict \<Rightarrow> json dict" where
  "merge_main [] merged_main = merged_main"
| "merge_main ((source_id, data) # rest) merged_main =
     (case data of
        JDict d \<Rightarrow> merge_main rest (dict_merge merged_main d)
      | _ \<Rightarrow> merge_main rest (AList.update source_id data merged_main))"

definition get_node_inputs :: "string \<Rightarrow> edge list \<Rightarrow> execution_context \<Rightarrow> json dict" where
  "get_node_inputs nid edges c =
     (case gather_inputs nid c edges ([], []) of
        (inputs, main_inputs) \<Rightarrow>
          (let inputs' =
                 (case main_inputs of
                    [] \<Rightarrow> inputs
                  | [main_input] \<Rightarrow> AList.update ''main'' (snd main_input) inputs
                  | _ \<Rightarrow> AList.update ''main'' (JDict (merge_main main_inputs [])) inputs)
           in case map_of inputs' ''main'' of
                None \<Rightarrow> inputs'
              | Some m \<Rightarrow> AList.update ''json'' m inputs'))"

subsection \<open>\<^verbatim>\<open>WorkflowExecutionEngine.execute_node\<close>\<close>

text \<open>
  Between the aggregation of the inputs and the normalisation of the result, the code
  evaluates the expressions in the node's properties, selects the executor of the node's
  type and awaits \<^verbatim>\<open>executor.execute(inputs, exec_context)\<close>. The executors call
  language models and web services, so this part is the parameter \<open>run\<close>: from the node,
  its inputs and the context it gives the exception raised, or the value returned
  together with the \<^verbatim>\<open>chat_response\<close> the executor left in \<^verbatim>\<open>exec_context\<close>, if any.

  The executor receives \<^verbatim>\<open>inputs\<close> and, under the keys \<^verbatim>\<open>trigger_data\<close> and \<^verbatim>\<open>node_results\<close>
  of \<^verbatim>\<open>exec_context\<close>, the objects \<^verbatim>\<open>context.trigger_data\<close> and \<^verbatim>\<open>context.node_results\<close>
  themselves, not copies, and it may change them in place: the webhook trigger writes the
  body it has parsed from \<^verbatim>\<open>test_json\<close> into the trigger data. So \<open>run\<close> also gives these
  three objects as the executor leaves them, whether it returns or raises, and the
  context goes on with them.

  The entries \<^verbatim>\<open>output\<close> and \<^verbatim>\<open>input\<close> of a node state are the values at the moment the state
  is set; a later change in place of one of these objects is not followed into the state.
  The other fields of the context (the execution order, the status entries of the node
  states, the errors, the status) cannot be reached from what the executor receives.
\<close>

record shared_objects =
  shared_inputs :: "json dict"
  shared_trigger_data :: json
  shared_node_results :: "json dict"

type_synonym executor = "node \<Rightarrow> json dict \<Rightarrow> execution_context \<Rightarrow> shared_objects \<times> (error + (json \<times> json option))"

text \<open>What an executor that changes none of the three objects leaves.\<close>

definition unchanged :: "json dict \<Rightarrow> execution_context \<Rightarrow> shared_objects" where
  "unchanged inputs c =
     \<lparr>shared_inputs = inputs, shared_trigger_data = trigger_data c,
      shared_node_results = node_results c\<rparr>"

definition normalize_result :: "json \<Rightarrow> json" where
  "normalize_result result =
     (case result of
        JDict d \<Rightarrow> (if map_of d ''main'' = None then JDict [(''main'', result)] else result)
      | _ \<Rightarrow> JDict [(''main'', result)])"

text \<open>
  The result is the context as the call leaves it, with the exception it re-raises or
  the value it returns.
\<close>

definition execute_node :: "executor \<Rightarrow> node \<Rightarrow> edge list \<Rightarrow> execution_context \<Rightarrow> execution_context \<times> (error + json)" where
  "execute_node run node edges c =
     (let c1 = set_node_state c (node_id node) ''running'' [];
          inputs = get_node_inputs (node_id node) edges c1
      in case run node inputs c1 of
           (left, outcome) \<Rightarrow>
             (let c2 = c1\<lparr>trigger_data := shared_trigger_data left,
                         node_results := shared_node_results left\<rparr>
              in case outcome of
                   Inl e \<Rightarrow> (set_node_error c2 (node_id node) (error_str e), Inl e)
                 | Inr (returned, chat) \<Rightarrow>
                     (let result = normalize_result returned;
                          c3 = set_node_result c2 (node_id node) result;
                          c4 = set_node_state c3 (node_id node) ''completed''
                                 [(''output'', result), (''input'', JDict (shared_inputs left))];
                          c5 = c4\<lparr>execution_order := execution_order c4 @ [node_id node]\<rparr>;
                          c6 = (case chat of None \<Rightarrow> c5 | Some r \<Rightarrow> c5\<lparr>chat_response := r\<rparr>)
                      in (c6, Inr result))))"

subsection \<open>\<^verbatim>\<open>WorkflowExecutionEngine.execute_workflow\<close>\<close>

text \<open>
  The run without a progress callback: \<^verbatim>\<open>progress_callback\<close> is \<^verbatim>\<open>None\<close>, its default. The
  table \<^verbatim>\<open>active_executions\<close> of the engine, which no step of a run reads, is left out.
  The loop over the execution order stops at the first exception;
  \<^verbatim>\<open>next(n for n in nodes if n['id'] == node_id)\<close> raises \<^verbatim>\<open>StopIteration\<close> when no node
  has the id.
\<close>

fun run_order :: "executor \<Rightarrow> node list \<Rightarrow> edge list \<Rightarrow> string list \<Rightarrow> execution_context \<Rightarrow> execution_context \<times> error option" where
  "run_order run nodes edges [] c = (c, None)"
| "run_order run nodes edges (nid # rest) c =
     (case find (\<lambda>n. node_id n = nid) nodes of
        None \<Rightarrow> (c, Some StopIteration)
      | Some node \<Rightarrow>
          (case execute_node run node edges c of
             (c', Inl e) \<Rightarrow> (c', Some e)
           | (c', Inr result) \<Rightarrow> run_order run nodes edges rest c'))"

subsection \<open>The partial run: \<^verbatim>\<open>_get_dependencies\<close>, \<^verbatim>\<open>_get_downstream\<close>, \<^verbatim>\<open>_execute_from_node\<close>\<close>

text \<open>
  The loop \<^verbatim>\<open>for edge in edges\<close> inside the search for the dependencies: the source of an
  edge into the current node joins the set and the queue when the set does not have it.
  The search for the downstream nodes is the same with source and target exchanged.
\<close>

fun scan_sources :: "string \<Rightarrow> edge list \<Rightarrow> string set \<times> string list \<Rightarrow> string set \<times> string list" where
  "scan_sources current [] (dependencies, queue) = (dependencies, queue)"
| "scan_sources current (e # es) (dependencies, queue) =
     (if target e = current \<and> source e \<notin> dependencies
      then scan_sources current es (insert (source e) dependencies, queue @ [source e])
      else scan_sources current es (dependencies, queue))"

fun scan_targets :: "string \<Rightarrow> edge list \<Rightarrow> string set \<times> string list \<Rightarrow> string set \<times> string list" where
  "scan_targets current [] (downstream, queue) = (downstream, queue)"
| "scan_targets current (e # es) (downstream, queue) =
     (if source e = current \<and> target e \<notin> downstream
      then scan_targets current es (insert (target e) downstream, queue @ [target e])
      else scan_targets current es (downstream, queue))"

lemma scan_sources_grows:
  "scan_sources current es (d, q) = (d', q') \<Longrightarrow>
   d \<subseteq> d' \<and> d' \<subseteq> d \<union> source ` set es \<and> (d' = d \<longrightarrow> q' = q)"
proof (induction es arbitrary: d q)
  case Nil then show ?case by simp
next
  case (Cons e es)
  show ?case
  proof (cases "target e = current \<and> source e \<notin> d")
    case True
    with Cons.prems have "scan_sources current es (insert (source e) d, q @ [source e]) = (d', q')"
      by simp
    from Cons.IH [OF this] True show ?thesis by auto
  next
    case False
    with Cons.prems have "scan_sources current es (d, q) = (d', q')" by auto
    from Cons.IH [OF this] show ?thesis by auto
  qed
qed

lemma scan_targets_grows:
  "scan_targets current es (d, q) = (d', q') \<Longrightarrow>
   d \<subseteq> d' \<and> d' \<subseteq> d \<union> target ` set es \<and> (d' = d \<longrightarrow> q' = q)"
proof (induction es arbitrary: d q)
  case Nil then show ?case by simp
next
  case (Cons e es)
  show ?case
  proof (cases "source e = current \<and> target e \<notin> d")
    case True
    with Cons.prems have "scan_targets current es (insert (target e) d, q @ [target e]) = (d', q')"
      by simp
    from Cons.IH [OF this] True show ?thesis by auto
  next
    case False
    with Cons.prems have "scan_targets current es (d, q) = (d', q')" by auto
    from Cons.IH [OF this] show ?thesis by auto
  qed
qed

lemma search_measure:
  assumes "finite S" and "d \<subseteq> d'" and "d' \<subseteq> d \<union> S" and "d' = d \<longrightarrow> q' = q"
  shows "card (S - d') < card (S - d) \<or> (card (S - d') = card (S - d) \<and> length q' < Suc (length q))"
proof (cases "d' = d")
  case True
  with assms(4) show ?thesis by simp
next
  case False
  with assms(2,3) have "S - d' \<subset> S - d" by blast
  with assms(1) show ?thesis by (simp add: psubset_card_mono)
qed

text \<open>The loops \<^verbatim>\<open>while queue\<close> of the two searches.\<close>

function dependencies_loop :: "edge list \<Rightarrow> string list \<Rightarrow> string set \<Rightarrow> string set" where
  "dependencies_loop edges [] dependencies = dependencies"
| "dependencies_loop edges (current # queue) dependencies =
     (case scan_sources current edges (dependencies, queue) of
        (dependencies', queue') \<Rightarrow> dependencies_loop edges queue' dependencies')"
  by pat_completeness auto
termination
proof (relation "measures [\<lambda>(edges, queue, d). card (source ` set edges - d), \<lambda>(edges, queue, d). length queue]")
  fix edges :: "edge list" and current :: string and queue :: "string list"
    and dependencies :: "string set" and dependencies' :: "string set" and queue' :: "string list"
  assume "(dependencies', queue') = scan_sources current edges (dependencies, queue)"
  then have "scan_sources current edges (dependencies, queue) = (dependencies', queue')" by simp
  from scan_sources_grows [OF this]
  have "card (source ` set edges - dependencies') < card (source ` set edges - dependencies) \<or>
    (card (source ` set edges - dependencies') = card (source ` set edges - dependencies) \<and>
     length queue' < Suc (length queue))"
    by (intro search_measure) auto
  then show "((edges, queue', dependencies'), edges, current # queue, dependencies)
      \<in> measures [\<lambda>(edges, queue, d). card (source ` set edges - d), \<lambda>(edges, queue, d). length queue]"
    by auto
qed simp

function downstream_loop :: "edge list \<Rightarrow> string list \<Rightarrow> string set \<Rightarrow> string set" where
  "downstream_loop edges [] downstream = downstream"
| "downstream_loop edges (current # queue) downstream =
     (case scan_targets current edges (downstream, queue) of
        (downstream', queue') \<Rightarrow> downstream_loop edges queue' downstream')"
  by pat_completeness auto
termination
proof (relation "measures [\<lambda>(edges, queue, d). card (target ` set edges - d), \<lambda>(edges, queue, d). length queue]")
  fix edges :: "edge list" and current :: string and queue :: "string list"
    and downstream :: "string set" and downstream' :: "string set" and queue' :: "string list"
  assume "(downstream', queue') = scan_targets current edges (downstream, queue)"
  then have "scan_targets current edges (downstream, queue) = (downstream', queue')" by simp
  from scan_targets_grows [OF this]
  have "card (target ` set edges - downstream') < card (target ` set edges - downstream) \<or>
    (card (target ` set edges - downstream') = card (target ` set edges - downstream) \<and>
     length queue' < Suc (length queue))"
    by (intro search_measure) auto
  then show "((edges, queue', downstream'), edges, current # queue, downstream)
      \<in> measures [\<lambda>(edges, queue, d). card (target ` set edges - d), \<lambda>(edges, queue, d). length queue]"
    by auto
qed simp

definition get_dependencies :: "string \<Rightarrow> edge list \<Rightarrow> string set" where
  "get_dependencies nid edges = dependencies_loop edges [nid] {}"

definition get_downstream :: "string \<Rightarrow> edge list \<Rightarrow> string set" where
  "get_downstream nid edges = downstream_loop edges [nid] {}"

definition get_execution_subgraph :: "string \<Rightarrow> node list \<Rightarrow> edge list \<Rightarrow> bool \<Rightarrow> string set" where
  "get_execution_subgraph nid nodes edges include_downstream =
     (if include_downstream
      then insert nid (get_dependencies nid edges) \<union> get_downstream nid edges
      else insert nid (get_dependencies nid edges))"

text \<open>
  \<^verbatim>\<open>_execute_from_node\<close>: the sort of the nodes and edges inside the subgraph, and the same
  loop over the order as in the full run. The result is the context as the call leaves
  it and the exception that left it, if any.
\<close>

definition execute_from_node :: "executor \<Rightarrow> string \<Rightarrow> node list \<Rightarrow> edge list \<Rightarrow> execution_context \<Rightarrow> bool \<Rightarrow> execution_context \<times> error option" where
  "execute_from_node run start_node_id nodes edges c include_downstream =
     (let nodes_to_execute = get_execution_subgraph start_node_id nodes edges include_downstream
      in case topological_sort
                (filter (\<lambda>n. node_id n \<in> nodes_to_execute) nodes)
                (filter (\<lambda>e. source e \<in> nodes_to_execute \<and> target e \<in> nodes_to_execute) edges) of
           Inl e \<Rightarrow> (c, Some e)
         | Inr order \<Rightarrow> run_order run nodes edges order c)"

definition default_trigger_data :: json where
  "default_trigger_data =
     JDict [(''message'', JStr ''Hello, how can I help you today?''),
            (''text'', JStr ''Hello, how can I help you today?''),
            (''user'', JStr ''anonymous''),
            (''channel'', JStr []),
            (''timestamp'', JStr [])]"

definition initial_context :: "string \<Rightarrow> string \<Rightarrow> json \<Rightarrow> json \<Rightarrow> execution_context" where
  "initial_context wid eid trigger creds =
     (new_context wid eid)
       \<lparr>trigger_data := (if truthy trigger then trigger else default_trigger_data),
        credentials := (if truthy creds then creds else JDict [])\<rparr>"

text \<open>The branch that executes the entire workflow.\<close>

definition execute_entire_workflow :: "executor \<Rightarrow> node list \<Rightarrow> edge list \<Rightarrow> execution_context \<Rightarrow> execution_context \<times> error option" where
  "execute_entire_workflow run nodes edges c =
     (case topological_sort nodes edges of
        Inl e \<Rightarrow> (c, Some e)
      | Inr order \<Rightarrow> run_order run nodes edges order c)"

text \<open>
  \<^verbatim>\<open>execute_workflow\<close>: the body of the \<^verbatim>\<open>try\<close> gives the context and the exception that
  left it, if any; the run is complete with status \<^verbatim>\<open>completed\<close> or \<^verbatim>\<open>error\<close>. A start node
  that is \<^verbatim>\<open>None\<close> or the empty string is falsy and gives the full run.
\<close>

definition execute_workflow :: "executor \<Rightarrow> string \<Rightarrow> string \<Rightarrow> node list \<Rightarrow> edge list \<Rightarrow> json \<Rightarrow> json \<Rightarrow> string option \<Rightarrow> execution_context" where
  "execute_workflow run wid eid nodes edges trigger creds start_node_id =
     (let c = initial_context wid eid trigger creds;
          outcome =
            (case start_node_id of
               None \<Rightarrow> execute_entire_workflow run nodes edges c
             | Some s \<Rightarrow>
                 if s = [] then execute_entire_workflow run nodes edges c
                 else execute_from_node run s nodes edges c False)
      in case outcome of
           (c', None) \<Rightarrow> complete c' ''completed''
         | (c', Some e) \<Rightarrow> complete c' ''error'')"

section \<open>Notions for the statements\<close>

text \<open>
  The dependency relation of a graph: the pairs (source, target) of its edges. A graph is
  acyclic when this relation is.
\<close>

definition edge_rel :: "edge list \<Rightarrow> (string \<times> string) set" where
  "edge_rel es = (\<lambda>e. (source e, target e)) ` set es"

text \<open>
  \<^verbatim>\<open>xs.index(x)\<close>, and whether \<open>a\<close> stands in \<open>xs\<close> at a position strictly before the
  position of \<open>b\<close>.
\<close>

fun index_of :: "'a \<Rightarrow> 'a list \<Rightarrow> nat option" where
  "index_of x [] = None"
| "index_of x (y # ys) = (if x = y then Some 0 else map_option Suc (index_of x ys))"

definition placed_before :: "'a list \<Rightarrow> 'a \<Rightarrow> 'a \<Rightarrow> bool" where
  "placed_before xs a b =
     (case index_of a xs of None \<Rightarrow> False
      | Some i \<Rightarrow> (case index_of b xs of None \<Rightarrow> False | Some j \<Rightarrow> i < j))"

text \<open>
  For the proofs about the sort: the number of edges into \<open>k\<close> whose source is not yet
  in the order; an order in which the source of every edge stands before each place of
  its target; the targets of the edges that leave \<open>k\<close>; the invariant of the loop of
  \<^const>\<open>kahn_loop\<close> and what it leaves when the queue is empty.
\<close>

definition cnt :: "edge list \<Rightarrow> string list \<Rightarrow> string \<Rightarrow> nat" where
  "cnt es order k = length (filter (\<lambda>e. target e = k \<and> source e \<notin> set order) es)"

definition topo :: "edge list \<Rightarrow> string list \<Rightarrow> bool" where
  "topo es order = (\<forall>e\<in>set es. \<forall>pre post. order = pre @ target e # post \<longrightarrow> source e \<in> set pre)"

definition kahn_inv :: "string list \<Rightarrow> edge list \<Rightarrow> string list \<Rightarrow> int dict \<Rightarrow> string list \<Rightarrow> bool" where
  "kahn_inv K es queue ind order =
    (map fst ind = K \<and> distinct (order @ queue) \<and> set (order @ queue) \<subseteq> set K \<and>
     (\<forall>k\<in>set K. map_of ind k = Some (int (cnt es order k))) \<and>
     (\<forall>k\<in>set K. (k \<in> set (order @ queue)) = (cnt es order k = 0)) \<and>
     topo es order)"

definition kahn_fin :: "string list \<Rightarrow> edge list \<Rightarrow> string list \<Rightarrow> bool" where
  "kahn_fin K es res =
    (distinct res \<and> set res \<subseteq> set K \<and>
     (\<forall>k\<in>set K. (k \<in> set res) = (cnt es res k = 0)) \<and> topo es res)"

definition out_targets :: "edge list \<Rightarrow> string \<Rightarrow> string list" where
  "out_targets es k = map target (filter (\<lambda>e. source e = k) es)"


text \<open>A three-node chain, a two-node cycle, and two executors for the examples.\<close>

definition example_nodes :: "node list" where
  "example_nodes =
     [\<lparr>node_id = ''A'', node_type = ''manual-trigger'', properties = []\<rparr>,
      \<lparr>node_id = ''B'', node_type = ''filter'', properties = []\<rparr>,
      \<lparr>node_id = ''C'', node_type = ''readme-viewer'', properties = []\<rparr>]"

definition example_edges :: "edge list" where
  "example_edges =
     [\<lparr>source = ''A'', target = ''B'', sourceHandle = None, targetHandle = None\<rparr>,
      \<lparr>source = ''B'', target = ''C'', sourceHandle = None, targetHandle = None\<rparr>]"

definition cyclic_edges :: "edge list" where
  "cyclic_edges =
     [\<lparr>source = ''A'', target = ''B'', sourceHandle = None, targetHandle = None\<rparr>,
      \<lparr>source = ''B'', target = ''A'', sourceHandle = None, targetHandle = None\<rparr>]"

definition run_ok :: executor where
  "run_ok n inputs c = (unchanged inputs c, Inr (JStr ''ok'', None))"


text \<open>A context holding the results of two nodes, and edges that bring both to a third.\<close>

definition merge_context :: execution_context where
  "merge_context =
     (new_context ''w'' ''x'')
       \<lparr>node_results :=
          [(''A'', JDict [(''main'', JDict [(''a'', JInt 1)])]),
           (''B'', JDict [(''main'', JDict [(''a'', JInt 2), (''b'', JInt 3)])])]\<rparr>"

definition merge_edges :: "edge list" where
  "merge_edges =
     [\<lparr>source = ''A'', target = ''X'', sourceHandle = None, targetHandle = None\<rparr>,
      \<lparr>source = ''B'', target = ''X'', sourceHandle = None, targetHandle = Some ''main''\<rparr>,
      \<lparr>source = ''A'', target = ''B'', sourceHandle = None, targetHandle = None\<rparr>]"

section \<open>The expression evaluator\<close>

subsection \<open>String operations of Python\<close>

text \<open>\<^verbatim>\<open>s.startswith(p)\<close> and \<^verbatim>\<open>sub in s\<close>.\<close>

fun starts_with :: "string \<Rightarrow> string \<Rightarrow> bool" where
  "starts_with s [] = True"
| "starts_with [] (p # ps) = False"
| "starts_with (c # cs) (p # ps) = (c = p \<and> starts_with cs ps)"

fun py_in :: "string \<Rightarrow> string \<Rightarrow> bool" where
  "py_in sub [] = (sub = [])"
| "py_in sub (c # cs) = (starts_with (c # cs) sub \<or> py_in sub cs)"

text \<open>
  \<^verbatim>\<open>s.strip()\<close> removes the characters that \<^verbatim>\<open>str.isspace\<close> accepts from both ends, and
  \<^verbatim>\<open>s.strip(chars)\<close> the characters of \<open>chars\<close>.
\<close>

definition is_space :: "char \<Rightarrow> bool" where
  "is_space c =
     (let n = (of_char c :: nat)
      in (9 \<le> n \<and> n \<le> 13) \<or> (28 \<le> n \<and> n \<le> 32) \<or> n = 133 \<or> n = 160)"

definition strip_chars :: "(char \<Rightarrow> bool) \<Rightarrow> string \<Rightarrow> string" where
  "strip_chars P s = rev (dropWhile P (rev (dropWhile P s)))"

definition py_strip :: "string \<Rightarrow> string" where
  "py_strip s = strip_chars is_space s"

text \<open>\<^verbatim>\<open>s.replace(old, new)\<close>: every occurrence of \<open>old\<close>, from the left, without overlap.\<close>

function replace_all :: "string \<Rightarrow> string \<Rightarrow> string \<Rightarrow> string" where
  "replace_all old new [] = (if old = [] then new else [])"
| "replace_all old new (c # cs) =
     (if old = [] then new @ c # replace_all old new cs
      else if starts_with (c # cs) old
      then new @ replace_all old new (drop (length old) (c # cs))
      else c # replace_all old new cs)"
  by pat_completeness auto
termination
  by (relation "measure (\<lambda>(old, new, s). length s)") auto

text \<open>
  \<^verbatim>\<open>s.split(sep)\<close> for a separator of one character and \<^verbatim>\<open>re.split\<close> for a class of
  characters: the pieces between the separators, the empty ones too.
\<close>

fun split_on :: "(char \<Rightarrow> bool) \<Rightarrow> string \<Rightarrow> string list" where
  "split_on P [] = [[]]"
| "split_on P (c # cs) =
     (if P c then [] # split_on P cs
      else (case split_on P cs of
              [] \<Rightarrow> [[c]]
            | piece # pieces \<Rightarrow> (c # piece) # pieces))"

text \<open>
  \<^verbatim>\<open>int(s)\<close> for a string: white space around, a sign, and decimal digits that single
  underscores may separate; \<^const>\<open>None\<close> stands for the \<^verbatim>\<open>ValueError\<close>. Around a number
  the characters 28 to 31 are not white space.
\<close>

definition is_digit :: "char \<Rightarrow> bool" where
  "is_digit c = (let n = (of_char c :: nat) in 48 \<le> n \<and> n \<le> 57)"

definition is_num_space :: "char \<Rightarrow> bool" where
  "is_num_space c =
     (let n = (of_char c :: nat) in (9 \<le> n \<and> n \<le> 13) \<or> n = 32 \<or> n = 133 \<or> n = 160)"

fun digit_groups :: "string \<Rightarrow> bool" where
  "digit_groups [] = False"
| "digit_groups [c] = is_digit c"
| "digit_groups (c # d # cs) =
     (is_digit c \<and> (if d = CHR ''_'' then digit_groups cs else digit_groups (d # cs)))"

definition digits_value :: "string \<Rightarrow> nat" where
  "digits_value ds =
     foldl (\<lambda>n c. 10 * n + (of_char c - 48)) 0 (filter is_digit ds)"

definition py_int :: "string \<Rightarrow> int option" where
  "py_int s =
     (let t = strip_chars is_num_space s;
          negative = starts_with t ''-'';
          ds = (if starts_with t ''-'' \<or> starts_with t ''+'' then tl t else t)
      in if digit_groups ds
         then Some (if negative then - int (digits_value ds) else int (digits_value ds))
         else None)"

subsection \<open>\<^verbatim>\<open>ExpressionEvaluator\<close>\<close>

text \<open>
  The evaluator's attributes, read from the evaluation context at construction:
  \<^verbatim>\<open>context.get('node_results', {})\<close>, \<^verbatim>\<open>context.get('json', {})\<close> and
  \<^verbatim>\<open>context.get('$vars', {})\<close>.
\<close>

record evaluator =
  results :: "json dict"
  json_data :: json
  vars :: json

text \<open>
  \<^verbatim>\<open>_get_nested_value\<close>: the path is split at \<^verbatim>\<open>.\<close>, \<^verbatim>\<open>[\<close> and \<^verbatim>\<open>]\<close>, the empty pieces are
  dropped and quotes are stripped from the others; then the value is walked. A missing
  key, an index that is no integer or is out of range, a value that is neither a mapping
  nor a list, and a \<^verbatim>\<open>None\<close> on the way all give \<^verbatim>\<open>None\<close>.
\<close>

definition path_parts :: "string \<Rightarrow> string list" where
  "path_parts path =
     map (strip_chars (\<lambda>c. c = CHR 0x22 \<or> c = CHR 0x27))
       (filter (\<lambda>p. p \<noteq> [])
          (split_on (\<lambda>c. c = CHR ''.'' \<or> c = CHR ''['' \<or> c = CHR '']'') path))"

fun walk :: "json \<Rightarrow> string list \<Rightarrow> json" where
  "walk current [] = current"
| "walk current (part # parts) =
     (if part = [] then walk current parts
      else (case current of
              JDict d \<Rightarrow>
                (case map_of d part of
                   None \<Rightarrow> JNone
                 | Some v \<Rightarrow> if v = JNone then JNone else walk v parts)
            | JList xs \<Rightarrow>
                (case py_int part of
                   None \<Rightarrow> JNone
                 | Some index \<Rightarrow>
                     if 0 \<le> index \<and> index < int (length xs)
                     then (let v = xs ! nat index in if v = JNone then JNone else walk v parts)
                     else JNone)
            | _ \<Rightarrow> JNone))"

definition get_nested_value :: "json \<Rightarrow> string \<Rightarrow> json" where
  "get_nested_value obj path = (if path = [] then obj else walk obj (path_parts path))"

text \<open>
  \<^verbatim>\<open>_evaluate_json_path\<close> and \<^verbatim>\<open>_evaluate_vars_path\<close>. The substitutions
  \<^verbatim>\<open>re.sub(r'^\$?json\.?', '', path)\<close> and \<^verbatim>\<open>re.sub(r'^\$vars\.?', '', path)\<close> remove the
  prefix when the path starts with it.
\<close>

definition drop_dot :: "string \<Rightarrow> string" where
  "drop_dot s = (if starts_with s ''.'' then tl s else s)"

definition strip_json_prefix :: "string \<Rightarrow> string" where
  "strip_json_prefix path =
     (if starts_with path ''$json'' then drop_dot (drop 5 path)
      else if starts_with path ''json'' then drop_dot (drop 4 path)
      else path)"

definition strip_vars_prefix :: "string \<Rightarrow> string" where
  "strip_vars_prefix path =
     (if starts_with path ''$vars'' then drop_dot (drop 5 path) else path)"

definition evaluate_json_path :: "evaluator \<Rightarrow> string \<Rightarrow> json" where
  "evaluate_json_path self path0 =
     (let path = strip_json_prefix path0
      in if path = [] then json_data self else get_nested_value (json_data self) path)"

definition evaluate_vars_path :: "evaluator \<Rightarrow> string \<Rightarrow> json" where
  "evaluate_vars_path self path0 =
     (let path = strip_vars_prefix path0
      in if path = [] then vars self else get_nested_value (vars self) path)"

text \<open>\<^verbatim>\<open>_get_node_output\<close>; the path is \<^const>\<open>None\<close> when the caller passes \<^verbatim>\<open>None\<close>.\<close>

definition get_node_output :: "evaluator \<Rightarrow> string \<Rightarrow> string option \<Rightarrow> json" where
  "get_node_output self nid path =
     (case map_of (results self) nid of
        None \<Rightarrow> JNone
      | Some node_result \<Rightarrow>
          if \<not> truthy node_result then JNone
          else (let data = (case node_result of
                              JDict d \<Rightarrow> (case map_of d ''main'' of
                                            Some m \<Rightarrow> m
                                          | None \<Rightarrow> node_result)
                            | _ \<Rightarrow> node_result)
                in case path of
                     None \<Rightarrow> data
                   | Some p \<Rightarrow> if p = [] then data else get_nested_value data p))"

definition evaluate_path :: "evaluator \<Rightarrow> string \<Rightarrow> json" where
  "evaluate_path self path =
     (if starts_with path ''json'' \<or> starts_with path ''$json'' then evaluate_json_path self path
      else if starts_with path ''$vars'' then evaluate_vars_path self path
      else get_nested_value (json_data self) path)"

text \<open>
  \<^verbatim>\<open>_evaluate_expression\<close>, with its tests in the order of the code. An expression that
  holds one of the operator characters goes to \<^verbatim>\<open>_evaluate_javascript\<close>, whose results are
  floating-point numbers and values of \<^verbatim>\<open>eval\<close>; that call is not followed here, and the
  expression handed over is the result \<^term>\<open>Inl (Javascript expr)\<close>.
\<close>

datatype handed_over = Javascript string

definition has_operator :: "string \<Rightarrow> bool" where
  "has_operator expr = (\<exists>op\<in>set ''+-*/()[]''. py_in [op] expr)"

definition evaluate_expression :: "evaluator \<Rightarrow> string \<Rightarrow> handed_over + json" where
  "evaluate_expression self expr0 =
     (let expr = py_strip expr0;
          parts = split_on (\<lambda>c. c = CHR ''.'') expr
      in if starts_with expr ''$json'' \<or> starts_with expr ''json''
         then Inr (evaluate_json_path self expr)
         else if starts_with expr ''$vars''
         then Inr (evaluate_vars_path self expr)
         else if starts_with expr ''$json.'' \<and> py_in ''.'' (drop 6 expr) \<and> 2 \<le> length parts
         then Inr (get_node_output self (parts ! 1)
                     (if 2 < length parts then Some (join ''.'' (drop 2 parts)) else None))
         else if has_operator expr
         then Inl (Javascript expr)
         else Inr (evaluate_path self expr))"

text \<open>
  \<^verbatim>\<open>re.findall(r'\$\{\{([^}]+)\}\}', expression)\<close>: from the left, each \<^verbatim>\<open>${{\<close> that is
  followed by one or more characters other than \<^verbatim>\<open>}\<close> and then by \<^verbatim>\<open>}}\<close> gives these
  characters, and the search goes on behind the match.
\<close>

lemma length_after_block: "length (dropWhile P (drop 2 cs)) - 2 < Suc (length cs)"
proof -
  have "length (dropWhile P (drop 2 cs)) \<le> length (drop 2 cs)"
    by (rule length_dropWhile_le)
  then show ?thesis by simp
qed

function find_blocks :: "string \<Rightarrow> string list" where
  "find_blocks [] = []"
| "find_blocks (c # cs) =
     (if starts_with (c # cs) ''${{''
      then (let body = takeWhile (\<lambda>x. x \<noteq> CHR ''}'') (drop 2 cs);
                after = dropWhile (\<lambda>x. x \<noteq> CHR ''}'') (drop 2 cs)
            in if body \<noteq> [] \<and> starts_with after ''}}''
               then body # find_blocks (drop 2 after)
               else find_blocks cs)
      else find_blocks cs)"
  by pat_completeness auto
termination
  by (relation "measure length") (auto simp: length_after_block)

text \<open>The loop \<^verbatim>\<open>for match in matches\<close> of \<^verbatim>\<open>evaluate\<close>.\<close>

fun substitute :: "evaluator \<Rightarrow> string list \<Rightarrow> string \<Rightarrow> handed_over + string" where
  "substitute self [] result = Inr result"
| "substitute self (match # matches) result =
     (case evaluate_expression self (py_strip match) of
        Inl h \<Rightarrow> Inl h
      | Inr evaluated \<Rightarrow>
          substitute self matches
            (replace_all (''${{'' @ match @ ''}}'') (py_str evaluated) result))"

text \<open>
  \<^verbatim>\<open>evaluate\<close>. A text that starts with \<^verbatim>\<open>{\<close> or \<^verbatim>\<open>[\<close> goes to \<^verbatim>\<open>json.loads\<close>:
  \<^term>\<open>JsonLoads t\<close> stands for what \<^verbatim>\<open>json.loads\<close> reads from \<open>t\<close>, and for \<open>t\<close> itself when
  it raises.
\<close>

datatype evaluated = Value json | JsonLoads string

definition evaluate :: "evaluator \<Rightarrow> json \<Rightarrow> handed_over + evaluated" where
  "evaluate self expression =
     (case expression of
        JStr s \<Rightarrow>
          if s = [] then Inr (Value expression)
          else if \<not> py_in ''${{'' s then Inr (Value expression)
          else if find_blocks s = [] then Inr (Value expression)
          else (case substitute self (find_blocks s) s of
                  Inl h \<Rightarrow> Inl h
                | Inr result \<Rightarrow>
                    if starts_with result ''{'' \<or> starts_with result ''[''
                    then Inr (JsonLoads result)
                    else Inr (Value (JStr result)))
      | _ \<Rightarrow> Inr (Value expression))"

text \<open>The input and the node results of the examples.\<close>

definition ada_json :: json where
  "ada_json = JDict [(''user'', JDict [(''name'', JStr ''Ada'')])]"

definition n1_results :: "json dict" where
  "n1_results = [(''n1'', JDict [(''main'', JDict [(''x'', JInt 5)])])]"

section \<open>The node executors\<close>

subsection \<open>The base class\<close>

text \<open>
  Modelled from the spec: \<^verbatim>\<open>BaseNodeExecutor.get_property(name, default)\<close>, whose file
  (\<^verbatim>\<open>node_executors/base.py\<close>) is not among the sources. The spec gives a node a property
  bag (named parameter to value) from which a value is pulled with a fallback to a
  default.
\<close>

definition get_property :: "json dict \<Rightarrow> string \<Rightarrow> json \<Rightarrow> json" where
  "get_property props name dflt = (case map_of props name of None \<Rightarrow> dflt | Some v \<Rightarrow> v)"

text \<open>\<^verbatim>\<open>d.get(k, default)\<close>, \<^verbatim>\<open>a or b\<close> and \<^verbatim>\<open>len(x)\<close>.\<close>

definition dict_get :: "json dict \<Rightarrow> string \<Rightarrow> json \<Rightarrow> json" where
  "dict_get d k dflt = (case map_of d k of None \<Rightarrow> dflt | Some v \<Rightarrow> v)"



subsection \<open>\<^verbatim>\<open>json.dumps(obj, indent=2)\<close>\<close>





subsection \<open>\<^verbatim>\<open>OutputNodeExecutor._execute_readme_viewer\<close>\<close>








subsection \<open>Floating-point numbers\<close>

text \<open>
  Python's \<^verbatim>\<open>float\<close> is not modelled. Its values are a type parameter, and the
  operations the code uses are the fields of a record that the models take as their
  first argument: the conversion of an integer (\<^const>\<open>None\<close> for the \<^verbatim>\<open>OverflowError\<close>) and
  of a string (\<^const>\<open>None\<close> for the \<^verbatim>\<open>ValueError\<close>), the comparison \<^verbatim>\<open>x < y\<close> (and \<^verbatim>\<open>x > y\<close> as
  \<^verbatim>\<open>y < x\<close>), the test \<^verbatim>\<open>x == 0\<close>, and the arithmetic. The theorems hold for every such
  record.
\<close>

record 'f float_ops =
  float_of_int :: "int \<Rightarrow> 'f option"
  float_of_str :: "string \<Rightarrow> 'f option"
  float_lt :: "'f \<Rightarrow> 'f \<Rightarrow> bool"
  float_is_zero :: "'f \<Rightarrow> bool"
  float_add :: "'f \<Rightarrow> 'f \<Rightarrow> 'f"
  float_sub :: "'f \<Rightarrow> 'f \<Rightarrow> 'f"
  float_mul :: "'f \<Rightarrow> 'f \<Rightarrow> 'f"
  float_div :: "'f \<Rightarrow> 'f \<Rightarrow> 'f"

text \<open>A value the arithmetic of the evaluator meets: a JSON value or a float.\<close>

datatype 'f pyvalue = Json json | Float 'f

text \<open>\<^verbatim>\<open>float(v)\<close>.\<close>

definition float_of_int_or_raise :: "'f float_ops \<Rightarrow> int \<Rightarrow> error + 'f" where
  "float_of_int_or_raise F i =
     (case float_of_int F i of
        None \<Rightarrow> Inl (Raised ''OverflowError'' ''int too large to convert to float'')
      | Some x \<Rightarrow> Inr x)"

definition py_float :: "'f float_ops \<Rightarrow> 'f pyvalue \<Rightarrow> error + 'f" where
  "py_float F v =
     (case v of
        Float x \<Rightarrow> Inr x
      | Json (JBool b) \<Rightarrow> float_of_int_or_raise F (if b then 1 else 0)
      | Json (JInt i) \<Rightarrow> float_of_int_or_raise F i
      | Json (JStr s) \<Rightarrow>
          (case float_of_str F s of
             None \<Rightarrow> Inl (ValueError ''could not convert string to float'')
           | Some x \<Rightarrow> Inr x)
      | Json _ \<Rightarrow> Inl (TypeError ''float() argument must be a string or a real number''))"

text \<open>An implementation of the operations by exact arithmetic, for the examples.\<close>

definition exact_floats :: "real float_ops" where
  "exact_floats =
     \<lparr>float_of_int = (\<lambda>i. Some (of_int i)),
      float_of_str = (\<lambda>s. map_option of_int (py_int s)),
      float_lt = (\<lambda>x y. x < y),
      float_is_zero = (\<lambda>x. x = 0),
      float_add = (\<lambda>x y. x + y),
      float_sub = (\<lambda>x y. x - y),
      float_mul = (\<lambda>x y. x * y),
      float_div = (\<lambda>x y. x / y)\<rparr>"

subsection \<open>\<^verbatim>\<open>DataNodeExecutor._evaluate_filter\<close> and \<^verbatim>\<open>_execute_filter\<close>\<close>

text \<open>\<^verbatim>\<open>s.lower()\<close>: the letters A to Z and the capital letters from 192 to 222, but 215.\<close>

definition lower_char :: "char \<Rightarrow> char" where
  "lower_char c =
     (let n = (of_char c :: nat)
      in if (65 \<le> n \<and> n \<le> 90) \<or> (192 \<le> n \<and> n \<le> 222 \<and> n \<noteq> 215) then char_of (n + 32) else c)"

definition py_lower :: "string \<Rightarrow> string" where
  "py_lower s = map lower_char s"

text \<open>
  The operator is compared with the five names in turn. For \<^verbatim>\<open>greaterThan\<close> and
  \<^verbatim>\<open>lessThan\<close> the two conversions and the comparison stand in a \<^verbatim>\<open>try\<close> whose handler
  returns \<^verbatim>\<open>False\<close>.
\<close>

definition evaluate_filter :: "'f float_ops \<Rightarrow> json \<Rightarrow> json \<Rightarrow> json \<Rightarrow> bool" where
  "evaluate_filter F field_value operator expected_value =
     (let field_value_str = py_lower (py_str field_value);
          expected_value_str = py_lower (py_str expected_value)
      in if operator = JStr ''equals'' then field_value_str = expected_value_str
         else if operator = JStr ''notEquals'' then field_value_str \<noteq> expected_value_str
         else if operator = JStr ''contains'' then py_in expected_value_str field_value_str
         else if operator = JStr ''greaterThan''
         then (case py_float F (Json field_value) of
                 Inl e \<Rightarrow> False
               | Inr x \<Rightarrow> (case py_float F (Json expected_value) of
                             Inl e \<Rightarrow> False
                           | Inr y \<Rightarrow> float_lt F y x))
         else if operator = JStr ''lessThan''
         then (case py_float F (Json field_value) of
                 Inl e \<Rightarrow> False
               | Inr x \<Rightarrow> (case py_float F (Json expected_value) of
                             Inl e \<Rightarrow> False
                           | Inr y \<Rightarrow> float_lt F x y))
         else True)"

text \<open>
  The executor. \<^verbatim>\<open>validate_inputs\<close> is a method of the base class, whose file is not among
  the sources; it is the parameter \<open>validate_inputs\<close>, which gives the exception the call
  raises, or \<^const>\<open>None\<close> when it returns. \<^verbatim>\<open>input_data.get\<close> raises when the input is no
  mapping, and a field that is a list or a mapping cannot be a key.
\<close>

definition execute_filter :: "'f float_ops \<Rightarrow> (json dict \<Rightarrow> string list \<Rightarrow> error option) \<Rightarrow> json dict \<Rightarrow> json dict \<Rightarrow> error + json" where
  "execute_filter F validate_inputs props inputs =
     (case validate_inputs inputs [''main''] of
        Some e \<Rightarrow> Inl e
      | None \<Rightarrow>
          (let input_data = dict_get inputs ''main'' (JDict []);
               field = get_property props ''field'' (JStr []);
               operator = get_property props ''operator'' (JStr ''equals'');
               v = get_property props ''value'' (JStr [])
           in if \<not> truthy field then Inl (NodeExecutionError ''No field specified for filter'')
              else (case input_data of
                      JDict d \<Rightarrow>
                        (case field of
                           JList xs \<Rightarrow> Inl (TypeError ''unhashable type'')
                         | JDict x \<Rightarrow> Inl (TypeError ''unhashable type'')
                         | _ \<Rightarrow>
                             if evaluate_filter F
                                  (case field of JStr f \<Rightarrow> dict_get d f (JStr []) | _ \<Rightarrow> JStr [])
                                  operator v
                             then Inr (JDict [(''main'', input_data)])
                             else Inr (JDict [(''main'', JNone)]))
                    | _ \<Rightarrow> Inl (AttributeError ''object has no attribute get''))))"

text \<open>A \<^verbatim>\<open>validate_inputs\<close> for the examples: it raises when a required input is missing.\<close>

definition require_inputs :: "json dict \<Rightarrow> string list \<Rightarrow> error option" where
  "require_inputs inputs required =
     (case filter (\<lambda>k. map_of inputs k = None) required of
        [] \<Rightarrow> None
      | k # ks \<Rightarrow> Some (NodeExecutionError (''Missing required input: '' @ k)))"

text \<open>The properties of the filter node of the examples.\<close>

definition status_filter :: "json dict" where
  "status_filter =
     [(''field'', JStr ''status''), (''operator'', JStr ''equals''), (''value'', JStr ''active'')]"

subsection \<open>\<^verbatim>\<open>ExpressionEvaluator._evaluate_javascript\<close>\<close>

text \<open>
  The two substitutions \<^verbatim>\<open>re.sub(r'\$json\.([a-zA-Z0-9_\.\[\]]+)', ...)\<close> and
  \<^verbatim>\<open>re.sub(r'json\.([a-zA-Z0-9_\.\[\]]+)', ...)\<close>: from the left, each occurrence of the
  prefix that is followed by one or more characters of the class is replaced, together
  with the longest run of such characters, by the \<^verbatim>\<open>repr\<close> of the value of the path.
\<close>

definition is_ref_char :: "char \<Rightarrow> bool" where
  "is_ref_char c =
     (let n = (of_char c :: nat)
      in (97 \<le> n \<and> n \<le> 122) \<or> (65 \<le> n \<and> n \<le> 90) \<or> (48 \<le> n \<and> n \<le> 57)
         \<or> c = CHR ''_'' \<or> c = CHR ''.'' \<or> c = CHR ''['' \<or> c = CHR '']'')"

function sub_refs :: "string \<Rightarrow> evaluator \<Rightarrow> string \<Rightarrow> string" where
  "sub_refs prefix self [] = []"
| "sub_refs prefix self (c # cs) =
     (if starts_with (c # cs) prefix
         \<and> takeWhile is_ref_char (drop (length prefix) (c # cs)) \<noteq> []
      then py_repr (evaluate_json_path self
                      (''json.'' @ takeWhile is_ref_char (drop (length prefix) (c # cs))))
           @ sub_refs prefix self
               (dropWhile is_ref_char (drop (length prefix) (c # cs)))
      else c # sub_refs prefix self cs)"
  by pat_completeness auto
termination
proof (relation "measure (\<lambda>(prefix, self, s). length s)")
  fix prefix :: string and self :: evaluator and c :: char and cs :: string
  assume a: "starts_with (c # cs) prefix \<and> takeWhile is_ref_char (drop (length prefix) (c # cs)) \<noteq> []"
  have "length (dropWhile is_ref_char (drop (length prefix) (c # cs)))
          < length (drop (length prefix) (c # cs))"
    using a length_takeWhile_le [of is_ref_char "drop (length prefix) (c # cs)"]
    by (metis add_diff_cancel_left' length_0_conv length_append less_add_same_cancel2
        length_greater_0_conv takeWhile_dropWhile_id)
  also have "\<dots> \<le> length (c # cs)" by simp
  finally show "((prefix, self, dropWhile is_ref_char (drop (length prefix) (c # cs))), prefix, self, c # cs)
        \<in> measure (\<lambda>(prefix, self, s). length s)"
    by simp
qed auto

text \<open>
  Numbers as Python adds and multiplies them: two integers give an integer, and an
  integer that meets a float is converted first.
\<close>

datatype 'f number = IntNum int | FloatNum 'f

definition number_float :: "'f float_ops \<Rightarrow> 'f number \<Rightarrow> error + 'f" where
  "number_float F n = (case n of IntNum i \<Rightarrow> float_of_int_or_raise F i | FloatNum x \<Rightarrow> Inr x)"

definition number_op :: "'f float_ops \<Rightarrow> (int \<Rightarrow> int \<Rightarrow> int) \<Rightarrow> ('f \<Rightarrow> 'f \<Rightarrow> 'f) \<Rightarrow> 'f number \<Rightarrow> 'f number \<Rightarrow> error + 'f number" where
  "number_op F int_op fl_op a b =
     (case (a, b) of
        (IntNum i, IntNum j) \<Rightarrow> Inr (IntNum (int_op i j))
      | _ \<Rightarrow> (case number_float F a of
                Inl e \<Rightarrow> Inl e
              | Inr x \<Rightarrow> (case number_float F b of
                            Inl e \<Rightarrow> Inl e
                          | Inr y \<Rightarrow> Inr (FloatNum (fl_op x y)))))"

definition number_value :: "'f number \<Rightarrow> 'f pyvalue" where
  "number_value n = (case n of IntNum i \<Rightarrow> Json (JInt i) | FloatNum x \<Rightarrow> Float x)"

text \<open>\<^verbatim>\<open>float(v) if isinstance(v, (int, float)) else 0\<close>; a Boolean is an \<^verbatim>\<open>int\<close>.\<close>

definition is_number :: "'f pyvalue \<Rightarrow> bool" where
  "is_number v = (case v of Float x \<Rightarrow> True | Json (JInt i) \<Rightarrow> True | Json (JBool b) \<Rightarrow> True | _ \<Rightarrow> False)"

definition operand :: "'f float_ops \<Rightarrow> 'f pyvalue \<Rightarrow> error + 'f number" where
  "operand F v =
     (if is_number v
      then (case py_float F v of Inl e \<Rightarrow> Inl e | Inr x \<Rightarrow> Inr (FloatNum x))
      else Inr (IntNum 0))"

text \<open>\<^verbatim>\<open>sum\<close> and the loop of the product, from the accumulator they start with.\<close>

fun accumulate :: "'f float_ops \<Rightarrow> (int \<Rightarrow> int \<Rightarrow> int) \<Rightarrow> ('f \<Rightarrow> 'f \<Rightarrow> 'f) \<Rightarrow> 'f number \<Rightarrow> 'f pyvalue list \<Rightarrow> error + 'f number" where
  "accumulate F int_op fl_op acc [] = Inr acc"
| "accumulate F int_op fl_op acc (v # vs) =
     (case operand F v of
        Inl e \<Rightarrow> Inl e
      | Inr t \<Rightarrow> (case number_op F int_op fl_op acc t of
                    Inl e \<Rightarrow> Inl e
                  | Inr acc' \<Rightarrow> accumulate F int_op fl_op acc' vs))"

text \<open>
  The body of the \<^verbatim>\<open>try\<close>, on the expression after the substitutions. The parameter
  \<open>ev\<close> is the call of \<^verbatim>\<open>_evaluate_expression\<close> on a part, and \<open>py_eval\<close> is the built-in
  \<^verbatim>\<open>eval\<close>.
\<close>

definition values_of :: "(string \<Rightarrow> 'f pyvalue) \<Rightarrow> char \<Rightarrow> string \<Rightarrow> 'f pyvalue list" where
  "values_of ev op expr = map (\<lambda>p. ev (py_strip p)) (split_on (\<lambda>c. c = op) expr)"

definition javascript_body :: "'f float_ops \<Rightarrow> (string \<Rightarrow> 'f pyvalue) \<Rightarrow> (string \<Rightarrow> error + 'f pyvalue) \<Rightarrow> string \<Rightarrow> error + 'f pyvalue" where
  "javascript_body F ev py_eval expr =
     (if py_in ''+'' expr
      then (case accumulate F (+) (float_add F) (IntNum 0) (values_of ev CHR ''+'' expr) of
              Inl e \<Rightarrow> Inl e
            | Inr n \<Rightarrow> Inr (number_value n))
      else if py_in ''-'' expr
      then (case py_float F (hd (values_of ev CHR ''-'' expr)) of
              Inl e \<Rightarrow> Inl e
            | Inr x \<Rightarrow>
                (case accumulate F (+) (float_add F) (IntNum 0) (tl (values_of ev CHR ''-'' expr)) of
                   Inl e \<Rightarrow> Inl e
                 | Inr n \<Rightarrow> (case number_op F (-) (float_sub F) (FloatNum x) n of
                               Inl e \<Rightarrow> Inl e
                             | Inr r \<Rightarrow> Inr (number_value r))))
      else if py_in ''*'' expr
      then (case accumulate F (*) (float_mul F) (IntNum 1) (values_of ev CHR ''*'' expr) of
              Inl e \<Rightarrow> Inl e
            | Inr n \<Rightarrow> Inr (number_value n))
      else if py_in ''/'' expr
      then (if 2 \<le> length (values_of ev CHR ''/'' expr)
            then (case py_float F (values_of ev CHR ''/'' expr ! 1) of
                    Inl e \<Rightarrow> Inl e
                  | Inr y \<Rightarrow>
                      if \<not> float_is_zero F y
                      then (case py_float F (values_of ev CHR ''/'' expr ! 0) of
                              Inl e \<Rightarrow> Inl e
                            | Inr x \<Rightarrow> Inr (Float (float_div F x y)))
                      else Inr (Json (JInt 0)))
            else Inr (Json (JInt 0)))
      else py_eval expr)"

text \<open>
  \<^verbatim>\<open>_evaluate_expression\<close> on a part. A part that holds an operator character goes to
  \<^verbatim>\<open>_evaluate_javascript\<close> again; that nested call is the parameter \<open>nested\<close> (it does not
  raise: every exception is handled inside it).
\<close>

definition evaluate_part :: "(string \<Rightarrow> 'f pyvalue) \<Rightarrow> evaluator \<Rightarrow> string \<Rightarrow> 'f pyvalue" where
  "evaluate_part nested self p =
     (case evaluate_expression self p of
        Inr v \<Rightarrow> Json v
      | Inl (Javascript expr) \<Rightarrow> nested expr)"

text \<open>
  \<^verbatim>\<open>_evaluate_javascript\<close>: the substitutions, the body, and the handler of the \<^verbatim>\<open>try\<close>,
  which returns the expression as the substitutions left it.
\<close>

definition substituted :: "evaluator \<Rightarrow> string \<Rightarrow> string" where
  "substituted self expr = sub_refs ''json.'' self (sub_refs ''$json.'' self expr)"

definition evaluate_javascript :: "'f float_ops \<Rightarrow> (string \<Rightarrow> 'f pyvalue) \<Rightarrow> (string \<Rightarrow> error + 'f pyvalue) \<Rightarrow> evaluator \<Rightarrow> string \<Rightarrow> 'f pyvalue" where
  "evaluate_javascript F nested py_eval self expr =
     (case javascript_body F (evaluate_part nested self) py_eval (substituted self expr) of
        Inl e \<Rightarrow> Json (JStr (substituted self expr))
      | Inr v \<Rightarrow> v)"

text \<open>
  For the examples: an input with a zero, an \<^verbatim>\<open>eval\<close> that raises, and a nested call that
  returns its expression, as it does when the evaluation fails.
\<close>

definition ratio_input :: evaluator where
  "ratio_input = \<lparr>results = [], json_data = JDict [(''a'', JInt 10), (''b'', JInt 0)], vars = JDict []\<rparr>"

definition no_eval :: "string \<Rightarrow> error + real pyvalue" where
  "no_eval expr = Inl (Raised ''NameError'' expr)"

definition nested_fails :: "string \<Rightarrow> real pyvalue" where
  "nested_fails expr = Json (JStr expr)"

section \<open>The topological sort\<close>

subsection \<open>The loops over the neighbours and over the edges\<close>

lemma key_present: "map_of al k = Some v \<Longrightarrow> k \<in> set (map fst al)"
  by (auto dest: map_of_SomeD intro: rev_image_eqI)

lemma update_present_keys: "map_of al k = Some v \<Longrightarrow> map fst (AList.update k w al) = map fst al"
  by (simp add: update_keys key_present del: set_map)

lemma relax_keys: "relax ns (ind, q) = Inr (ind', q') \<Longrightarrow> map fst ind' = map fst ind"
proof (induction ns arbitrary: ind q)
  case Nil then show ?case by simp
next
  case (Cons n ns)
  then show ?case
    by (auto split: option.splits simp: update_present_keys)
qed

lemma relax_map:
  "relax ns (ind, q) = Inr (ind', q') \<Longrightarrow>
   map_of ind' k = map_option (\<lambda>d. d - int (count_list ns k)) (map_of ind k)"
proof (induction ns arbitrary: ind q)
  case Nil then show ?case by (simp add: option.map_ident)
next
  case (Cons n ns)
  from Cons.prems obtain d where d: "map_of ind n = Some d"
    by (auto split: option.splits)
  with Cons.prems have "relax ns (AList.update n (d - 1) ind, if d - 1 = 0 then q @ [n] else q) = Inr (ind', q')"
    by simp
  from Cons.IH [OF this] d show ?case
    by (auto simp: update_conv' option.map_comp comp_def)
qed



lemma relax_queue:
  "relax ns (ind, q) = Inr (ind', q') \<Longrightarrow>
   \<exists>extra. q' = q @ extra \<and> distinct extra \<and>
     set extra = {n \<in> set ns. \<exists>d. map_of ind n = Some d \<and> 1 \<le> d \<and> d \<le> int (count_list ns n)}"
proof (induction ns arbitrary: ind q)
  case Nil then show ?case by simp
next
  case (Cons n ns)
  from Cons.prems obtain d where d: "map_of ind n = Some d"
    by (auto split: option.splits)
  let ?ind = "AList.update n (d - 1) ind"
  let ?q = "if d - 1 = 0 then q @ [n] else q"
  let ?P = "\<lambda>i l m. m \<in> set l \<and> (\<exists>c. map_of i m = Some c \<and> 1 \<le> c \<and> c \<le> int (count_list l m))"
  from Cons.prems d have r: "relax ns (?ind, ?q) = Inr (ind', q')"
    by simp
  from Cons.IH [OF r] obtain extra where e: "q' = ?q @ extra" "distinct extra"
    "set extra = {m. ?P ?ind ns m}"
    by blast
  have other: "?P ?ind ns m = ?P ind (n # ns) m" if "m \<noteq> n" for m
    using that by (simp add: update_conv')
  have self: "?P ?ind ns n = (2 \<le> d \<and> d \<le> int (count_list ns n) + 1)"
  proof (cases "n \<in> set ns")
    case True then show ?thesis by (auto simp: update_conv')
  next
    case False
    then have "count_list ns n = 0" by simp
    with False show ?thesis by (auto simp: update_conv')
  qed
  have self': "?P ind (n # ns) n = (1 \<le> d \<and> d \<le> int (count_list ns n) + 1)"
    using d by auto
  show ?case
  proof (cases "d = 1")
    case True
    have "n \<notin> set extra" using e(3) True self by simp
    moreover have "insert n (set extra) = {m. ?P ind (n # ns) m}"
    proof (rule set_eqI)
      fix m show "(m \<in> insert n (set extra)) = (m \<in> {m. ?P ind (n # ns) m})"
      proof (cases "m = n")
        case True
        with self' \<open>d = 1\<close> show ?thesis by simp
      next
        case False
        with other [OF False] e(3) show ?thesis by simp
      qed
    qed
    ultimately have "q' = q @ (n # extra) \<and> distinct (n # extra) \<and> set (n # extra) = {m. ?P ind (n # ns) m}"
      using e True by simp
    then show ?thesis by (intro exI [of _ "n # extra"]) simp
  next
    case False
    have "set extra = {m. ?P ind (n # ns) m}"
    proof (rule set_eqI)
      fix m show "(m \<in> set extra) = (m \<in> {m. ?P ind (n # ns) m})"
      proof (cases "m = n")
        case True
        with self self' False e(3) show ?thesis by auto
      next
        case F: False
        with other [OF F] e(3) show ?thesis by simp
      qed
    qed
    with e False have "q' = q @ extra \<and> distinct extra \<and> set extra = {m. ?P ind (n # ns) m}"
      by simp
    then show ?thesis by (intro exI [of _ extra]) simp
  qed
qed

lemma relax_ok: "set ns \<subseteq> fst ` set ind \<Longrightarrow> \<exists>r. relax ns (ind, q) = Inr r"
proof (induction ns arbitrary: ind q)
  case Nil then show ?case by simp
next
  case (Cons n ns)
  then have "map_of ind n \<noteq> None"
    by (simp add: map_of_eq_None_iff)
  then obtain d where d: "map_of ind n = Some d" by blast
  have "set ns \<subseteq> fst ` set (AList.update n (d - 1) ind)"
    using Cons.prems by (auto simp: dom_update)
  from Cons.IH [OF this] d show ?case by simp
qed

lemma add_edges_keys:
  "add_edges es (ind, adj) = Inr (ind', adj') \<Longrightarrow> map fst ind' = map fst ind \<and> map fst adj' = map fst adj"
  by (induction es arbitrary: ind adj) (auto split: option.splits simp: update_present_keys)

lemma add_edges_ind:
  "add_edges es (ind, adj) = Inr (ind', adj') \<Longrightarrow>
   map_of ind' k = map_option (\<lambda>d. d + int (length (filter (\<lambda>e. target e = k) es))) (map_of ind k)"
proof (induction es arbitrary: ind adj)
  case Nil then show ?case by (simp add: option.map_ident)
next
  case (Cons e es)
  from Cons.prems obtain ts d where s: "map_of adj (source e) = Some ts" "map_of ind (target e) = Some d"
    by (auto split: option.splits)
  with Cons.prems have "add_edges es (AList.update (target e) (d + 1) ind, AList.update (source e) (ts @ [target e]) adj) = Inr (ind', adj')"
    by simp
  from Cons.IH [OF this] s show ?case
    by (auto simp: update_conv')
qed

lemma add_edges_adj:
  "add_edges es (ind, adj) = Inr (ind', adj') \<Longrightarrow>
   map_of adj' k = map_option (\<lambda>ts. ts @ map target (filter (\<lambda>e. source e = k) es)) (map_of adj k)"
proof (induction es arbitrary: ind adj)
  case Nil then show ?case by (simp add: option.map_ident)
next
  case (Cons e es)
  from Cons.prems obtain ts d where s: "map_of adj (source e) = Some ts" "map_of ind (target e) = Some d"
    by (auto split: option.splits)
  with Cons.prems have "add_edges es (AList.update (target e) (d + 1) ind, AList.update (source e) (ts @ [target e]) adj) = Inr (ind', adj')"
    by simp
  from Cons.IH [OF this] s show ?case
    by (auto simp: update_conv')
qed

lemma add_edges_endpoints:
  "add_edges es (ind, adj) = Inr (ind', adj') \<Longrightarrow> e \<in> set es \<Longrightarrow>
   source e \<in> set (map fst adj) \<and> target e \<in> set (map fst ind)"
proof (induction es arbitrary: ind adj)
  case Nil then show ?case by simp
next
  case (Cons x es)
  from Cons.prems obtain ts d where s: "map_of adj (source x) = Some ts" "map_of ind (target x) = Some d"
    by (auto split: option.splits)
  with Cons.prems have r: "add_edges es (AList.update (target x) (d + 1) ind, AList.update (source x) (ts @ [target x]) adj) = Inr (ind', adj')"
    by simp
  show ?case
  proof (cases "e = x")
    case True
    with s show ?thesis by (simp add: key_present del: set_map)
  next
    case False
    with Cons.prems have "e \<in> set es" by simp
    from Cons.IH [OF r this] s show ?thesis
      by (simp add: update_present_keys del: set_map)
  qed
qed

lemma add_edges_ok:
  "\<forall>e\<in>set es. source e \<in> set (map fst adj) \<and> target e \<in> set (map fst ind) \<Longrightarrow>
   \<exists>r. add_edges es (ind, adj) = Inr r"
proof (induction es arbitrary: ind adj)
  case Nil then show ?case by simp
next
  case (Cons e es)
  then have "map_of adj (source e) \<noteq> None" "map_of ind (target e) \<noteq> None"
    by (simp_all add: map_of_eq_None_iff)
  then obtain ts d where s: "map_of adj (source e) = Some ts" "map_of ind (target e) = Some d"
    by blast
  have "\<forall>x\<in>set es. source x \<in> set (map fst (AList.update (source e) (ts @ [target e]) adj))
       \<and> target x \<in> set (map fst (AList.update (target e) (d + 1) ind))"
    using Cons.prems s by (simp add: update_present_keys del: set_map)
  from Cons.IH [OF this] s show ?case by simp
qed

lemma foldl_update_keys:
  "fst ` set (foldl (\<lambda>d n. AList.update (node_id n) v d) acc nodes) = fst ` set acc \<union> node_id ` set nodes"
  by (induction nodes arbitrary: acc) (auto simp: dom_update)

lemma foldl_update_distinct:
  "distinct (map fst acc) \<Longrightarrow> distinct (map fst (foldl (\<lambda>d n. AList.update (node_id n) v d) acc nodes))"
  by (induction nodes arbitrary: acc) (auto simp: distinct_update)

lemma foldl_update_values:
  "\<forall>kv\<in>set acc. snd kv = v \<Longrightarrow> \<forall>kv\<in>set (foldl (\<lambda>d n. AList.update (node_id n) v d) acc nodes). snd kv = v"
proof (induction nodes arbitrary: acc)
  case Nil then show ?case by simp
next
  case (Cons n nodes)
  have "\<forall>kv\<in>set (AList.update (node_id n) v acc). snd kv = v"
    using Cons.prems by (induction acc) auto
  from Cons.IH [OF this] show ?case by simp
qed

lemma foldl_update_same_keys:
  "map fst acc = map fst acc' \<Longrightarrow>
   map fst (foldl (\<lambda>d n. AList.update (node_id n) v d) acc nodes) =
   map fst (foldl (\<lambda>d n. AList.update (node_id n) w d) acc' nodes)"
proof (induction nodes arbitrary: acc acc')
  case Nil then show ?case by simp
next
  case (Cons n nodes)
  have "map fst (AList.update (node_id n) v acc) = map fst (AList.update (node_id n) w acc')"
    using Cons.prems by (simp add: update_keys)
  from Cons.IH [OF this] show ?case by simp
qed

lemma init_dict_keys: "set (map fst (init_dict v nodes)) = node_id ` set nodes"
  unfolding init_dict_def using foldl_update_keys [of v "[]" nodes] by simp

lemma init_dict_distinct: "distinct (map fst (init_dict v nodes))"
  unfolding init_dict_def by (rule foldl_update_distinct) simp

lemma init_dict_same_keys: "map fst (init_dict v nodes) = map fst (init_dict w nodes)"
  unfolding init_dict_def by (rule foldl_update_same_keys) simp

lemma init_dict_map_of:
  "map_of (init_dict v nodes) k = (if k \<in> node_id ` set nodes then Some v else None)"
proof (cases "k \<in> node_id ` set nodes")
  case True
  then have "map_of (init_dict v nodes) k \<noteq> None"
    using init_dict_keys [of v nodes] by (simp add: map_of_eq_None_iff)
  then obtain x where x: "map_of (init_dict v nodes) k = Some x" by blast
  then have "(k, x) \<in> set (init_dict v nodes)" by (rule map_of_SomeD)
  moreover have "\<forall>kv\<in>set (init_dict v nodes). snd kv = v"
    unfolding init_dict_def by (rule foldl_update_values) simp
  ultimately have "x = v" by auto
  with x True show ?thesis by simp
next
  case False
  then show ?thesis using init_dict_keys [of v nodes] by (simp add: map_of_eq_None_iff)
qed

subsection \<open>The invariant of the queue loop\<close>

lemma cnt_step:
  "current \<notin> set order \<Longrightarrow>
   cnt es (order @ [current]) k + count_list (out_targets es current) k = cnt es order k"
  unfolding cnt_def out_targets_def
  by (induction es) auto

lemma cnt_zero: "cnt es order k = 0 \<Longrightarrow> e \<in> set es \<Longrightarrow> target e = k \<Longrightarrow> source e \<in> set order"
  unfolding cnt_def by (auto simp: filter_empty_conv)

lemma topo_step:
  assumes "topo es order" and "cnt es order current = 0"
  shows "topo es (order @ [current])"
  unfolding topo_def
proof (intro ballI allI impI)
  fix e pre post
  assume e: "e \<in> set es" and eq: "order @ [current] = pre @ target e # post"
  show "source e \<in> set pre"
  proof (cases post rule: rev_cases)
    case Nil
    with eq have "pre = order" "target e = current" by auto
    with cnt_zero [OF assms(2) e] show ?thesis by simp
  next
    case (snoc post' x)
    with eq have "order = pre @ target e # post'" by simp
    with assms(1) e show ?thesis unfolding topo_def by blast
  qed
qed

lemma kahn_step:
  assumes E: "\<forall>e\<in>set es. source e \<in> set K \<and> target e \<in> set K"
    and inv: "kahn_inv K es (current # queue) ind order"
    and r: "relax (out_targets es current) (ind, queue) = Inr (ind', queue')"
  shows "kahn_inv K es queue' ind' (order @ [current])"
proof -
  let ?ns = "out_targets es current"
  let ?o = "order @ [current]"
  from inv have keys: "map fst ind = K"
    and dist: "distinct (order @ current # queue)"
    and sub: "set (order @ current # queue) \<subseteq> set K"
    and deg: "\<And>k. k \<in> set K \<Longrightarrow> map_of ind k = Some (int (cnt es order k))"
    and zero: "\<And>k. k \<in> set K \<Longrightarrow> (k \<in> set (order @ current # queue)) = (cnt es order k = 0)"
    and tp: "topo es order"
    unfolding kahn_inv_def by auto
  from dist have fresh: "current \<notin> set order" by auto
  have step: "\<And>k. cnt es ?o k + count_list ?ns k = cnt es order k"
    by (rule cnt_step [OF fresh])
  have nsK: "set ?ns \<subseteq> set K" using E unfolding out_targets_def by auto
  from sub have curK: "current \<in> set K" by simp
  from zero [OF curK] have cur0: "cnt es order current = 0" by simp
  have keys': "map fst ind' = K" using relax_keys [OF r] keys by simp
  have deg': "map_of ind' k = Some (int (cnt es ?o k))" if "k \<in> set K" for k
  proof -
    have "map_of ind' k = Some (int (cnt es order k) - int (count_list ?ns k))"
      using relax_map [OF r, of k] deg [OF that] by simp
    also have "int (cnt es order k) - int (count_list ?ns k) = int (cnt es ?o k)"
      using step [of k] by linarith
    finally show ?thesis .
  qed
  from relax_queue [OF r] obtain extra where q': "queue' = queue @ extra" and dx: "distinct extra"
    and sx: "set extra = {n \<in> set ?ns. \<exists>d. map_of ind n = Some d \<and> 1 \<le> d \<and> d \<le> int (count_list ?ns n)}"
    by blast
  have ex: "(k \<in> set extra) = (cnt es order k \<noteq> 0 \<and> cnt es ?o k = 0)" if "k \<in> set K" for k
  proof (cases "k \<in> set ?ns")
    case True
    then have "count_list ?ns k \<noteq> 0" by (simp add: count_list_0_iff)
    with True sx deg [OF that] step [of k] show ?thesis by auto
  next
    case False
    then have "count_list ?ns k = 0" by simp
    with False sx step [of k] show ?thesis by auto
  qed
  have exK: "set extra \<subseteq> set K" using sx nsK by auto
  have disj: "set extra \<inter> set (order @ current # queue) = {}"
  proof -
    { fix k assume k: "k \<in> set extra" "k \<in> set (order @ current # queue)"
      with exK have kK: "k \<in> set K" by auto
      from ex [OF kK] k(1) zero [OF kK] k(2) have False by simp }
    then show ?thesis by blast
  qed
  have d': "distinct (?o @ queue')"
    using dist dx disj q' by auto
  have s': "set (?o @ queue') \<subseteq> set K"
    using sub exK q' by auto
  have z': "(k \<in> set (?o @ queue')) = (cnt es ?o k = 0)" if "k \<in> set K" for k
  proof -
    have "(k \<in> set (?o @ queue')) = (k \<in> set (order @ current # queue) \<or> k \<in> set extra)"
      using q' by auto
    also have "\<dots> = (cnt es order k = 0 \<or> (cnt es order k \<noteq> 0 \<and> cnt es ?o k = 0))"
      using zero [OF that] ex [OF that] by simp
    also have "\<dots> = (cnt es ?o k = 0)"
      using step [of k] by auto
    finally show ?thesis .
  qed
  have t': "topo es ?o" by (rule topo_step [OF tp cur0])
  show ?thesis unfolding kahn_inv_def
    using keys' d' s' deg' z' t' by blast
qed

lemma kahn_loop_inv:
  assumes E: "\<forall>e\<in>set es. source e \<in> set K \<and> target e \<in> set K"
  shows "\<forall>k\<in>set K. map_of adj k = Some (out_targets es k) \<Longrightarrow>
         kahn_inv K es queue ind order \<Longrightarrow>
         \<exists>res. kahn_loop adj queue ind order = Inr res \<and> kahn_fin K es res"
proof (induction adj queue ind order rule: kahn_loop.induct)
  case (1 adjacency in_degree execution_order)
  then show ?case unfolding kahn_inv_def kahn_fin_def by simp
next
  case (2 adjacency current queue in_degree execution_order)
  note A = "2.prems"(1) and inv = "2.prems"(2)
  from inv have curK: "current \<in> set K" and keys: "map fst in_degree = K"
    unfolding kahn_inv_def by auto
  from A curK have adj: "map_of adjacency current = Some (out_targets es current)" by simp
  have "set (out_targets es current) \<subseteq> fst ` set in_degree"
    using E keys unfolding out_targets_def by auto
  from relax_ok [OF this] obtain ind' queue' where
    r: "relax (out_targets es current) (in_degree, queue) = Inr (ind', queue')"
    by (metis surj_pair)
  have "kahn_inv K es queue' ind' (execution_order @ [current])"
    by (rule kahn_step [OF E inv r])
  from "2.IH" [OF adj r refl A this] adj r show ?case by simp
qed

subsection \<open>Positions in the order\<close>

lemma index_of_bound: "x \<in> set xs \<Longrightarrow> \<exists>i. index_of x xs = Some i \<and> i < length xs"
  by (induction xs) auto

lemma index_of_append_in: "x \<in> set xs \<Longrightarrow> index_of x (xs @ ys) = index_of x xs"
  by (induction xs) auto

lemma index_of_append_notin: "x \<notin> set xs \<Longrightarrow> index_of x (xs @ x # ys) = Some (length xs)"
  by (induction xs) auto

lemma placed_beforeI: "s \<in> set pre \<Longrightarrow> t \<notin> set pre \<Longrightarrow> placed_before (pre @ t # post) s t"
  unfolding placed_before_def
  using index_of_bound [of s pre]
  by (auto simp: index_of_append_in index_of_append_notin)

lemma topo_placed:
  assumes "topo es order" "e \<in> set es" "target e \<in> set order"
  shows "placed_before order (source e) (target e)"
proof -
  from split_list_first [OF assms(3)] obtain pre post where
    o: "order = pre @ target e # post" and n: "target e \<notin> set pre" by blast
  from assms(1,2) o have "source e \<in> set pre" unfolding topo_def by blast
  with n o show ?thesis by (simp add: placed_beforeI)
qed

lemma placed_before_acyclic:
  assumes "\<forall>e\<in>set es. placed_before order (source e) (target e)"
  shows "acyclic (edge_rel es)"
proof -
  have "acyclic ((edge_rel es)\<inverse>)"
  proof (rule acyclicI_order [where f = "\<lambda>x. the (index_of x order)"])
    fix a b assume "(a, b) \<in> (edge_rel es)\<inverse>"
    then obtain e where "e \<in> set es" "source e = b" "target e = a"
      unfolding edge_rel_def by auto
    with assms have "placed_before order b a" by auto
    then show "the (index_of b order) < the (index_of a order)"
      unfolding placed_before_def by (auto split: option.splits)
  qed
  then show ?thesis by simp
qed

lemma sort_inv:
  assumes a: "add_edges es (init_dict 0 nodes, init_dict [] nodes) = Inr (ind, adj)"
  defines "K \<equiv> map fst (init_dict (0::int) nodes)"
  shows "(\<forall>e\<in>set es. source e \<in> set K \<and> target e \<in> set K)"
    and "(\<forall>k\<in>set K. map_of adj k = Some (out_targets es k))"
    and "kahn_inv K es (map fst (filter (\<lambda>kd. snd kd = 0) ind)) ind []"
proof -
  have Kset: "set K = node_id ` set nodes" unfolding K_def by (rule init_dict_keys)
  have Kd: "distinct K" unfolding K_def by (rule init_dict_distinct)
  from add_edges_keys [OF a] have ki: "map fst ind = K"
    and ka: "map fst adj = K"
    unfolding K_def using init_dict_same_keys [of "[]" nodes "0::int"] by simp_all
  show E: "\<forall>e\<in>set es. source e \<in> set K \<and> target e \<in> set K"
  proof
    fix e assume "e \<in> set es"
    from add_edges_endpoints [OF a this] show "source e \<in> set K \<and> target e \<in> set K"
      unfolding K_def init_dict_keys .
  qed
  show "\<forall>k\<in>set K. map_of adj k = Some (out_targets es k)"
  proof
    fix k assume "k \<in> set K"
    with Kset have "map_of (init_dict [] nodes) k = Some []" by (simp add: init_dict_map_of)
    with add_edges_adj [OF a, of k] show "map_of adj k = Some (out_targets es k)"
      unfolding out_targets_def by simp
  qed
  have deg: "map_of ind k = Some (int (cnt es [] k))" if "k \<in> set K" for k
  proof -
    from that Kset have "map_of (init_dict (0::int) nodes) k = Some 0" by (simp add: init_dict_map_of)
    with add_edges_ind [OF a, of k] show ?thesis unfolding cnt_def by simp
  qed
  let ?q = "map fst (filter (\<lambda>kd. snd kd = 0) ind)"
  have di: "distinct (map fst ind)" using ki Kd by simp
  have dq: "distinct ?q" using di by (rule distinct_map_filter)
  have sq: "set ?q \<subseteq> set K" using ki by force
  have zq: "(k \<in> set ?q) = (cnt es [] k = 0)" if "k \<in> set K" for k
  proof -
    have "(k \<in> set ?q) = ((k, 0) \<in> set ind)" by force
    also have "\<dots> = (map_of ind k = Some 0)" using di by simp
    also have "\<dots> = (cnt es [] k = 0)" using deg [OF that] by simp
    finally show ?thesis .
  qed
  show "kahn_inv K es ?q ind []"
    unfolding kahn_inv_def topo_def using ki dq sq deg zq by simp
qed

lemma sort_sound:
  assumes "topological_sort nodes es = Inr order"
  shows "distinct order" and "set order = node_id ` set nodes"
    and "distinct (map node_id nodes)"
    and "\<forall>e\<in>set es. source e \<in> node_id ` set nodes \<and> target e \<in> node_id ` set nodes"
    and "topo es order"
proof -
  let ?K = "map fst (init_dict (0::int) nodes)"
  from assms obtain ind adj where a: "add_edges es (init_dict 0 nodes, init_dict [] nodes) = Inr (ind, adj)"
    unfolding topological_sort_def by (auto split: sum.splits)
  note inv = sort_inv [OF a]
  from kahn_loop_inv [OF inv] obtain res where
    k: "kahn_loop adj (map fst (filter (\<lambda>kd. snd kd = 0) ind)) ind [] = Inr res" and f: "kahn_fin ?K es res"
    by blast
  from assms a k have res: "res = order" and len: "length order = length nodes"
    unfolding topological_sort_def by (auto split: if_splits)
  from f res have d: "distinct order" and s: "set order \<subseteq> node_id ` set nodes" and t: "topo es order"
    unfolding kahn_fin_def using init_dict_keys [of "0::int" nodes] by auto
  show "distinct order" by (rule d)
  show "topo es order" by (rule t)
  have c1: "card (set order) = length nodes" using d len by (simp add: distinct_card)
  have c2: "card (node_id ` set nodes) \<le> length nodes"
    by (metis card_length length_map list.set_map)
  have "card (set order) \<le> card (node_id ` set nodes)"
    using s by (simp add: card_mono)
  with c1 c2 have c3: "card (node_id ` set nodes) = length nodes" by simp
  show "set order = node_id ` set nodes"
    using s c1 c3 by (simp add: card_subset_eq)
  show "distinct (map node_id nodes)"
    using c3 by (simp add: card_distinct)
  show "\<forall>e\<in>set es. source e \<in> node_id ` set nodes \<and> target e \<in> node_id ` set nodes"
    using inv(1) init_dict_keys [of "0::int" nodes] by simp
qed

lemma sort_complete:
  assumes ids: "distinct (map node_id nodes)"
    and E: "\<forall>e\<in>set es. source e \<in> node_id ` set nodes \<and> target e \<in> node_id ` set nodes"
    and acyc: "acyclic (edge_rel es)"
  shows "\<exists>order. topological_sort nodes es = Inr order"
proof -
  let ?K = "map fst (init_dict (0::int) nodes)"
  have Kset: "set ?K = node_id ` set nodes" by (rule init_dict_keys)
  have "\<forall>e\<in>set es. source e \<in> set (map fst (init_dict ([]::string list) nodes)) \<and> target e \<in> set (map fst (init_dict (0::int) nodes))"
    using E init_dict_keys [of "0::int" nodes] init_dict_keys [of "[]::string list" nodes] by simp
  from add_edges_ok [OF this] obtain ind adj where
    a: "add_edges es (init_dict 0 nodes, init_dict [] nodes) = Inr (ind, adj)"
    by (metis surj_pair)
  note inv = sort_inv [OF a]
  from kahn_loop_inv [OF inv] obtain res where
    k: "kahn_loop adj (map fst (filter (\<lambda>kd. snd kd = 0) ind)) ind [] = Inr res" and f: "kahn_fin ?K es res"
    by blast
  from f have d: "distinct res" and s: "set res \<subseteq> set ?K"
    and z: "\<And>k. k \<in> set ?K \<Longrightarrow> (k \<in> set res) = (cnt es res k = 0)"
    unfolding kahn_fin_def by auto
  have "finite (edge_rel es)" unfolding edge_rel_def by simp
  with acyc have wf: "wf (edge_rel es)" by (simp add: finite_acyclic_wf)
  have all: "set ?K \<subseteq> set res"
  proof (rule ccontr)
    assume "\<not> set ?K \<subseteq> set res"
    then obtain x where "x \<in> set ?K - set res" by blast
    from wfE_min [OF wf this] obtain m where m: "m \<in> set ?K - set res"
      and least: "\<And>y. (y, m) \<in> edge_rel es \<Longrightarrow> y \<notin> set ?K - set res" by metis
    from m z [of m] have "cnt es res m \<noteq> 0" by simp
    then obtain e where e: "e \<in> set es" "target e = m" "source e \<notin> set res"
      unfolding cnt_def by (auto simp: filter_empty_conv)
    then have "(source e, m) \<in> edge_rel es" unfolding edge_rel_def by force
    from least [OF this] e(3) have "source e \<notin> set ?K" by simp
    with inv(1) e(1) show False by simp
  qed
  with s have "set res = set ?K" by simp
  then have "card (set res) = card (node_id ` set nodes)" using Kset by simp
  then have "length res = length nodes"
    using d ids by (metis distinct_card length_map list.set_map)
  with a k show ?thesis unfolding topological_sort_def by simp
qed

section \<open>The run of a workflow\<close>

lemma node_status_set:
  "''status'' \<notin> fst ` set kwargs \<Longrightarrow>
   node_status (set_node_state c nid st kwargs) nid = Some (JStr st)"
proof -
  have m: "\<And>a. ''status'' \<notin> fst ` set kwargs \<Longrightarrow>
        map_of (dict_merge a kwargs) ''status'' = map_of a ''status''"
    unfolding dict_merge_def
    by (induction kwargs) (auto simp: update_conv')
  assume "''status'' \<notin> fst ` set kwargs"
  from m [OF this] show ?thesis
    unfolding node_status_def set_node_state_def
    by (simp add: update_conv' Let_def)
qed

lemma set_node_state_other:
  "k \<noteq> nid \<Longrightarrow> map_of (node_states (set_node_state c nid st kwargs)) k = map_of (node_states c) k"
  unfolding set_node_state_def by (simp add: update_conv' Let_def)

lemma node_status_other:
  "k \<noteq> nid \<Longrightarrow> node_status (set_node_state c nid st kwargs) k = node_status c k"
  unfolding node_status_def by (simp add: set_node_state_other)

lemma set_node_state_fields:
  "execution_order (set_node_state c nid st kwargs) = execution_order c"
  "errors (set_node_state c nid st kwargs) = errors c"
  "trigger_data (set_node_state c nid st kwargs) = trigger_data c"
  "node_results (set_node_state c nid st kwargs) = node_results c"
  unfolding set_node_state_def by (simp_all add: Let_def)

text \<open>
  What a call of \<^const>\<open>execute_node\<close> that returns leaves, and what one that raises leaves.
  Whether it returns or raises is the outcome of the executor on the inputs of the node
  in the context where the node is marked as running.
\<close>

lemma execute_node_ok:
  assumes "execute_node run node edges c = (c', Inr res)"
  shows "execution_order c' = execution_order c @ [node_id node]"
    and "node_status c' (node_id node) = Some (JStr ''completed'')"
    and "errors c' = errors c"
    and "\<And>k. k \<noteq> node_id node \<Longrightarrow> node_status c' k = node_status c k"
    and "trigger_data c' =
           shared_trigger_data (fst (run node
             (get_node_inputs (node_id node) edges (set_node_state c (node_id node) ''running'' []))
             (set_node_state c (node_id node) ''running'' [])))"
proof -
  let ?c1 = "set_node_state c (node_id node) ''running'' []"
  let ?inp = "get_node_inputs (node_id node) edges ?c1"
  obtain left outcome where r: "run node ?inp ?c1 = (left, outcome)" by (rule prod.exhaust)
  from assms r obtain returned chat where o: "outcome = Inr (returned, chat)"
    unfolding execute_node_def Let_def by (cases outcome) auto
  let ?c2 = "?c1\<lparr>trigger_data := shared_trigger_data left, node_results := shared_node_results left\<rparr>"
  let ?res = "normalize_result returned"
  let ?c4 = "set_node_state (set_node_result ?c2 (node_id node) ?res) (node_id node) ''completed''
               [(''output'', ?res), (''input'', JDict (shared_inputs left))]"
  let ?c5 = "?c4\<lparr>execution_order := execution_order ?c4 @ [node_id node]\<rparr>"
  from assms r o have c': "c' = (case chat of None \<Rightarrow> ?c5 | Some x \<Rightarrow> ?c5\<lparr>chat_response := x\<rparr>)"
    unfolding execute_node_def Let_def by simp
  have st: "node_status ?c4 (node_id node) = Some (JStr ''completed'')"
    by (rule node_status_set) simp
  show "execution_order c' = execution_order c @ [node_id node]"
    using c' by (simp add: set_node_state_fields set_node_result_def split: option.splits)
  show "node_status c' (node_id node) = Some (JStr ''completed'')"
    using c' st by (simp add: node_status_def split: option.splits)
  show "errors c' = errors c"
    using c' by (simp add: set_node_state_fields set_node_result_def split: option.splits)
  show "node_status c' k = node_status c k" if "k \<noteq> node_id node" for k
  proof -
    have "node_status ?c4 k = node_status c k"
      using that by (simp add: node_status_other) (simp add: node_status_def set_node_result_def set_node_state_other)
    with c' show ?thesis by (simp add: node_status_def split: option.splits)
  qed
  show "trigger_data c' = shared_trigger_data (fst (run node ?inp ?c1))"
    using c' r by (simp add: set_node_state_fields set_node_result_def split: option.splits)
qed

lemma execute_node_raise:
  assumes "execute_node run node edges c = (c', Inl e)"
  shows "execution_order c' = execution_order c"
    and "node_status c' (node_id node) = Some (JStr ''error'')"
    and "map_of (errors c') (node_id node) = Some (error_str e)"
    and "\<And>k. k \<noteq> node_id node \<Longrightarrow> node_status c' k = node_status c k"
    and "trigger_data c' =
           shared_trigger_data (fst (run node
             (get_node_inputs (node_id node) edges (set_node_state c (node_id node) ''running'' []))
             (set_node_state c (node_id node) ''running'' [])))"
proof -
  let ?c1 = "set_node_state c (node_id node) ''running'' []"
  let ?inp = "get_node_inputs (node_id node) edges ?c1"
  obtain left outcome where r: "run node ?inp ?c1 = (left, outcome)" by (rule prod.exhaust)
  let ?c2 = "?c1\<lparr>trigger_data := shared_trigger_data left, node_results := shared_node_results left\<rparr>"
  from assms r have o: "outcome = Inl e"
    and c': "c' = set_node_error ?c2 (node_id node) (error_str e)"
    unfolding execute_node_def Let_def by (cases outcome; auto)+
  show "execution_order c' = execution_order c"
    using c' by (simp add: set_node_error_def set_node_state_fields)
  show "node_status c' (node_id node) = Some (JStr ''error'')"
    unfolding c' set_node_error_def by (rule node_status_set) simp
  show "map_of (errors c') (node_id node) = Some (error_str e)"
    using c' by (simp add: set_node_error_def set_node_state_fields update_conv')
  show "trigger_data c' = shared_trigger_data (fst (run node ?inp ?c1))"
    using c' r by (simp add: set_node_error_def set_node_state_fields)
  show "node_status c' k = node_status c k" if "k \<noteq> node_id node" for k
    using that unfolding c' set_node_error_def
    by (simp add: node_status_other) (simp add: node_status_def set_node_state_other)
qed

lemma execute_node_outcome:
  "snd (execute_node run node edges c) =
     (case snd (run node
             (get_node_inputs (node_id node) edges (set_node_state c (node_id node) ''running'' []))
             (set_node_state c (node_id node) ''running'' [])) of
        Inl e \<Rightarrow> Inl e
      | Inr r \<Rightarrow> Inr (normalize_result (fst r)))"
  unfolding execute_node_def Let_def by (simp split: prod.splits sum.splits)

lemma find_node: "nid \<in> node_id ` set nodes \<Longrightarrow> \<exists>n. find (\<lambda>n. node_id n = nid) nodes = Some n \<and> node_id n = nid"
  by (induction nodes) auto

text \<open>
  The loop over the order: when it ends without an exception every node of the order has
  been executed; when an exception ends it, the order splits at the node that raised.
\<close>

lemma run_order_char:
  assumes "distinct order" "set order \<subseteq> node_id ` set nodes"
    and "run_order run nodes edges order c = (c', r)"
  shows "(\<forall>k. k \<notin> set order \<longrightarrow> node_status c' k = node_status c k) \<and>
         (case r of
            None \<Rightarrow> execution_order c' = execution_order c @ order \<and>
                    (\<forall>a\<in>set order. node_status c' a = Some (JStr ''completed''))
          | Some e \<Rightarrow> (\<exists>pre b post. order = pre @ b # post \<and>
                    execution_order c' = execution_order c @ pre \<and>
                    (\<forall>a\<in>set pre. node_status c' a = Some (JStr ''completed'')) \<and>
                    node_status c' b = Some (JStr ''error'') \<and>
                    map_of (errors c') b = Some (error_str e)))"
  using assms
proof (induction order arbitrary: c)
  case Nil
  then show ?case by simp
next
  case (Cons nid rest)
  from Cons.prems(2) find_node [of nid nodes] obtain n where
    n: "find (\<lambda>n. node_id n = nid) nodes = Some n" "node_id n = nid" by auto
  obtain c1 r1 where x: "execute_node run n edges c = (c1, r1)" by (metis surj_pair)
  show ?case
  proof (cases r1)
    case (Inl e)
    with Cons.prems(3) n x have eq: "c' = c1" "r = Some e" by auto
    note f = execute_node_raise [OF x [unfolded Inl]]
    have "nid # rest = [] @ nid # rest \<and> execution_order c' = execution_order c @ [] \<and>
          (\<forall>a\<in>set []. node_status c' a = Some (JStr ''completed'')) \<and>
          node_status c' nid = Some (JStr ''error'') \<and> map_of (errors c') nid = Some (error_str e)"
      using f n(2) eq by simp
    then have "\<exists>pre b post. nid # rest = pre @ b # post \<and> execution_order c' = execution_order c @ pre \<and>
          (\<forall>a\<in>set pre. node_status c' a = Some (JStr ''completed'')) \<and>
          node_status c' b = Some (JStr ''error'') \<and> map_of (errors c') b = Some (error_str e)"
      by blast
    moreover have "\<forall>k. k \<notin> set (nid # rest) \<longrightarrow> node_status c' k = node_status c k"
      using f(4) n(2) eq by simp
    ultimately show ?thesis using eq by simp
  next
    case (Inr res)
    with Cons.prems(3) n x have rec: "run_order run nodes edges rest c1 = (c', r)" by simp
    note f = execute_node_ok [OF x [unfolded Inr]]
    from Cons.prems have d: "distinct rest" "set rest \<subseteq> node_id ` set nodes" "nid \<notin> set rest" by auto
    note ih = Cons.IH [OF d(1,2) rec]
    have keep: "node_status c' nid = Some (JStr ''completed'')"
      using ih d(3) f(2) n(2) by simp
    have o: "\<forall>k. k \<notin> set (nid # rest) \<longrightarrow> node_status c' k = node_status c k"
      using ih f(4) n(2) by simp
    show ?thesis
    proof (cases r)
      case None
      with ih f(1) n(2) keep o show ?thesis by simp
    next
      case (Some e)
      with ih obtain pre b post where p: "rest = pre @ b # post"
        "execution_order c' = execution_order c1 @ pre"
        "\<forall>a\<in>set pre. node_status c' a = Some (JStr ''completed'')"
        "node_status c' b = Some (JStr ''error'')" "map_of (errors c') b = Some (error_str e)"
        by auto
      have "nid # rest = (nid # pre) @ b # post \<and> execution_order c' = execution_order c @ (nid # pre) \<and>
          (\<forall>a\<in>set (nid # pre). node_status c' a = Some (JStr ''completed'')) \<and>
          node_status c' b = Some (JStr ''error'') \<and> map_of (errors c') b = Some (error_str e)"
        using p f(1) n(2) keep by simp
      then have "\<exists>pre b post. nid # rest = pre @ b # post \<and> execution_order c' = execution_order c @ pre \<and>
          (\<forall>a\<in>set pre. node_status c' a = Some (JStr ''completed'')) \<and>
          node_status c' b = Some (JStr ''error'') \<and> map_of (errors c') b = Some (error_str e)"
        by blast
      with Some o show ?thesis by simp
    qed
  qed
qed

lemma topo_prefix: "topo es (xs @ ys) \<Longrightarrow> topo es xs"
  unfolding topo_def by (metis append_Cons append_assoc)


text \<open>
  The trigger data at the end of the loop are those at its start when no executor changes
  them.
\<close>

lemma run_order_trigger:
  assumes "\<forall>n i c. shared_trigger_data (fst (run n i c)) = trigger_data c"
    and "run_order run nodes edges order c = (c', r)"
  shows "trigger_data c' = trigger_data c"
  using assms(2)
proof (induction order arbitrary: c)
  case Nil then show ?case by simp
next
  case (Cons nid rest)
  show ?case
  proof (cases "find (\<lambda>n. node_id n = nid) nodes")
    case None
    with Cons.prems show ?thesis by simp
  next
    case (Some n)
    obtain c1 r1 where x: "execute_node run n edges c = (c1, r1)" by (metis surj_pair)
    show ?thesis
    proof (cases r1)
      case (Inl e)
      from execute_node_raise(5) [OF x [unfolded Inl]] assms(1)
      have "trigger_data c1 = trigger_data c" by (simp add: set_node_state_fields)
      with Inl Cons.prems Some x show ?thesis by simp
    next
      case (Inr res)
      from execute_node_ok(5) [OF x [unfolded Inr]] assms(1)
      have t: "trigger_data c1 = trigger_data c" by (simp add: set_node_state_fields)
      from Inr Cons.prems Some x have "run_order run nodes edges rest c1 = (c', r)" by simp
      from Cons.IH [OF this] t show ?thesis by simp
    qed
  qed
qed

text \<open>
  The loop ends without an exception when the executor returns on every node of the
  order.
\<close>

lemma run_order_no_raise:
  assumes "\<forall>n i c. node_id n \<in> set order \<longrightarrow> (\<exists>r. snd (run n i c) = Inr r)"
    and "set order \<subseteq> node_id ` set nodes"
  shows "snd (run_order run nodes edges order c) = None"
  using assms
proof (induction order arbitrary: c)
  case Nil then show ?case by simp
next
  case (Cons nid rest)
  from Cons.prems(2) find_node [of nid nodes] obtain n where
    n: "find (\<lambda>n. node_id n = nid) nodes = Some n" "node_id n = nid" by auto
  let ?c1 = "set_node_state c (node_id n) ''running'' []"
  from Cons.prems(1) n(2) obtain r where
    r: "snd (run n (get_node_inputs (node_id n) edges ?c1) ?c1) = Inr r"
    by (metis list.set_intros(1))
  obtain c' where x: "execute_node run n edges c = (c', Inr (normalize_result (fst r)))"
    using execute_node_outcome [of run n edges c] r by (metis prod.collapse sum.simps(6))
  from Cons.prems have "\<forall>n i c. node_id n \<in> set rest \<longrightarrow> (\<exists>r. snd (run n i c) = Inr r)"
    and "set rest \<subseteq> node_id ` set nodes" by simp_all
  from Cons.IH [OF this, of c'] n x show ?case by simp
qed


lemma execute_workflow_full:
  "execute_workflow run wid eid nodes edges trigger creds None =
     (case topological_sort nodes edges of
        Inl e \<Rightarrow> complete (initial_context wid eid trigger creds) ''error''
      | Inr order \<Rightarrow>
          (case run_order run nodes edges order (initial_context wid eid trigger creds) of
             (c', None) \<Rightarrow> complete c' ''completed''
           | (c', Some e) \<Rightarrow> complete c' ''error''))"
  by (simp add: execute_workflow_def execute_entire_workflow_def Let_def split: sum.splits)



section \<open>The full run\<close>

text \<open>
  C1 (topological soundness). For every acyclic workflow graph whose edges reference only
  ids of nodes in the node list: in the execution order that the full run realizes, every
  edge whose target was executed has its source at a strictly earlier position. When the
  node ids are distinct, moreover, the sort returns an order of all nodes in which the
  source of every edge stands strictly before its target; the realized execution order is
  a prefix of that order, the whole of it when the run completes; and the run completes
  when no execution of a node raises.
\<close>


theorem topological_soundness:
  assumes "\<forall>e\<in>set edges. source e \<in> node_id ` set nodes \<and> target e \<in> node_id ` set nodes"
    and "acyclic (edge_rel edges)"
  shows "(\<forall>e\<in>set edges.
            target e \<in> set (execution_order (execute_workflow run wid eid nodes edges trigger creds None)) \<longrightarrow>
            placed_before (execution_order (execute_workflow run wid eid nodes edges trigger creds None))
              (source e) (target e)) \<and>
         (distinct (map node_id nodes) \<longrightarrow>
            (\<exists>order rest.
               topological_sort nodes edges = Inr order \<and>
               (\<forall>e\<in>set edges. placed_before order (source e) (target e)) \<and>
               order = execution_order (execute_workflow run wid eid nodes edges trigger creds None) @ rest \<and>
               (status (execute_workflow run wid eid nodes edges trigger creds None) = ''completed'' \<longrightarrow> rest = []) \<and>
               ((\<forall>n i c. \<exists>r. snd (run n i c) = Inr r) \<longrightarrow>
                  status (execute_workflow run wid eid nodes edges trigger creds None) = ''completed'')))"
proof (intro conjI impI)
  let ?init = "initial_context wid eid trigger creds"
  let ?fin = "execute_workflow run wid eid nodes edges trigger creds None"
  have e0: "execution_order ?init = []" by (simp add: initial_context_def new_context_def)
  have prefix: "\<exists>rest. order = execution_order ?fin @ rest \<and> (status ?fin = ''completed'' \<longrightarrow> rest = []) \<and>
      ((\<forall>n i c. \<exists>r. snd (run n i c) = Inr r) \<longrightarrow> status ?fin = ''completed'')"
    if s: "topological_sort nodes edges = Inr order" for order
  proof -
    note snd = sort_sound [OF s]
    obtain c' r where ro: "run_order run nodes edges order ?init = (c', r)" by (metis surj_pair)
    have sub: "set order \<subseteq> node_id ` set nodes" using snd(2) by simp
    note ch = run_order_char [OF snd(1) sub ro]
    have xo: "execution_order ?fin = execution_order c'"
      and st: "status ?fin = (case r of None \<Rightarrow> ''completed'' | Some e \<Rightarrow> ''error'')"
      using s ro by (simp_all add: execute_workflow_full complete_def split: option.splits)
    have nr: "(\<forall>n i c. \<exists>r. snd (run n i c) = Inr r) \<longrightarrow> r = None"
      using run_order_no_raise [of order run nodes edges ?init] sub ro by auto
    show ?thesis
    proof (cases r)
      case None
      with ch e0 xo st show ?thesis by simp
    next
      case (Some e)
      with ch e0 xo obtain pre b post where "order = pre @ b # post" "execution_order ?fin = pre" by auto
      moreover have "status ?fin \<noteq> ''completed''" using st Some by simp
      ultimately show ?thesis using nr Some by auto
    qed
  qed
  show "\<forall>e\<in>set edges. target e \<in> set (execution_order ?fin) \<longrightarrow>
      placed_before (execution_order ?fin) (source e) (target e)"
  proof (cases "topological_sort nodes edges")
    case (Inl e)
    then have "execution_order ?fin = []"
      using e0 by (simp add: execute_workflow_full complete_def)
    then show ?thesis by simp
  next
    case (Inr order)
    from prefix [OF Inr] obtain rest where "order = execution_order ?fin @ rest" by blast
    with sort_sound(5) [OF Inr] have "topo edges (execution_order ?fin)"
      using topo_prefix by metis
    then show ?thesis using topo_placed by blast
  qed
  assume d: "distinct (map node_id nodes)"
  from sort_complete [OF d assms] obtain order where s: "topological_sort nodes edges = Inr order"
    by blast
  note snd = sort_sound [OF s]
  have placed: "\<forall>e\<in>set edges. placed_before order (source e) (target e)"
    using topo_placed [OF snd(5)] snd(2) assms(1) by blast
  from prefix [OF s] s placed
  show "\<exists>order rest.
       topological_sort nodes edges = Inr order \<and>
       (\<forall>e\<in>set edges. placed_before order (source e) (target e)) \<and>
       order = execution_order ?fin @ rest \<and>
       (status ?fin = ''completed'' \<longrightarrow> rest = []) \<and>
       ((\<forall>n i c. \<exists>r. snd (run n i c) = Inr r) \<longrightarrow> status ?fin = ''completed'')"
    by blast
qed


theorem topological_soundness_witness:
  "distinct (map node_id example_nodes) \<and>
   set (map source example_edges) \<union> set (map target example_edges) \<subseteq> set (map node_id example_nodes) \<and>
   acyclic (edge_rel example_edges) \<and>
   topological_sort example_nodes example_edges = Inr [''A'', ''B'', ''C''] \<and>
   status (execute_workflow run_ok ''w'' ''x'' example_nodes example_edges JNone JNone None) = ''completed'' \<and>
   execution_order (execute_workflow run_ok ''w'' ''x'' example_nodes example_edges JNone JNone None)
     = [''A'', ''B'', ''C''] \<and>
   placed_before [''A'', ''B'', ''C''] ''A'' ''B'' \<and>
   placed_before [''A'', ''B'', ''C''] ''B'' ''C''"
proof -
  have h1: "distinct (map node_id example_nodes)"
    by (simp add: example_nodes_def)
  have h2: "\<forall>e\<in>set example_edges.
      source e \<in> node_id ` set example_nodes \<and> target e \<in> node_id ` set example_nodes"
    by (simp add: example_nodes_def example_edges_def)
  have "\<forall>e\<in>set example_edges. placed_before [''A'', ''B'', ''C''] (source e) (target e)"
    by (simp add: example_edges_def placed_before_def)
  then have h3: "acyclic (edge_rel example_edges)"
    by (rule placed_before_acyclic)
  have s: "topological_sort example_nodes example_edges = Inr [''A'', ''B'', ''C'']"
    by code_simp
  have x: "execution_order (execute_workflow run_ok ''w'' ''x'' example_nodes example_edges JNone JNone None)
     = [''A'', ''B'', ''C'']"
    by code_simp
  have c: "status (execute_workflow run_ok ''w'' ''x'' example_nodes example_edges JNone JNone None) = ''completed''"
    by code_simp
  from topological_soundness [OF h2 h3, of run_ok "''w''" "''x''" JNone JNone] h1 s x
  have "placed_before [''A'', ''B'', ''C''] ''A'' ''B'' \<and> placed_before [''A'', ''B'', ''C''] ''B'' ''C''"
    by (simp add: example_edges_def)
  with h1 h2 h3 s x c show ?thesis by auto
qed

text \<open>
  C2 (cycle detection). For every workflow graph whose dependency relation has a cycle,
  a full run fails before any node is dispatched: whatever the executors would do, the
  result is the initial context with status \<^verbatim>\<open>error\<close>, so it has no node state, no node
  result and an empty execution order.
\<close>

theorem cycle_detection:
  assumes "\<not> acyclic (edge_rel edges)"
  shows "execute_workflow run wid eid nodes edges trigger creds None =
           (initial_context wid eid trigger creds)\<lparr>status := ''error''\<rparr> \<and>
         node_states (execute_workflow run wid eid nodes edges trigger creds None) = [] \<and>
         execution_order (execute_workflow run wid eid nodes edges trigger creds None) = [] \<and>
         node_results (execute_workflow run wid eid nodes edges trigger creds None) = []"
proof -
  have "\<exists>e. topological_sort nodes edges = Inl e"
  proof (cases "topological_sort nodes edges")
    case (Inl e) then show ?thesis by blast
  next
    case (Inr order)
    note snd = sort_sound [OF Inr]
    have "\<forall>e\<in>set edges. placed_before order (source e) (target e)"
      using topo_placed [OF snd(5)] snd(2) snd(4) by blast
    from placed_before_acyclic [OF this] assms show ?thesis by simp
  qed
  then show ?thesis
    by (auto simp: execute_workflow_full complete_def initial_context_def new_context_def)
qed

theorem cycle_detection_witness:
  "\<not> acyclic (edge_rel cyclic_edges) \<and>
   status (execute_workflow run_ok ''w'' ''x'' example_nodes cyclic_edges JNone JNone None) = ''error'' \<and>
   node_states (execute_workflow run_ok ''w'' ''x'' example_nodes cyclic_edges JNone JNone None) = [] \<and>
   execution_order (execute_workflow run_ok ''w'' ''x'' example_nodes cyclic_edges JNone JNone None) = []"
proof -
  have "(''A'', ''B'') \<in> edge_rel cyclic_edges" "(''B'', ''A'') \<in> edge_rel cyclic_edges"
    by (simp_all add: edge_rel_def cyclic_edges_def)
  then have "(''A'', ''A'') \<in> (edge_rel cyclic_edges)\<^sup>+" by (rule trancl_into_trancl2 [OF _ r_into_trancl])
  then have h: "\<not> acyclic (edge_rel cyclic_edges)" unfolding acyclic_def by blast
  from cycle_detection [OF h, of run_ok "''w''" "''x''" example_nodes JNone JNone] h
  show ?thesis by (simp add: initial_context_def new_context_def)
qed



lemma execute_from_node_trigger:
  assumes "\<forall>n i c. shared_trigger_data (fst (run n i c)) = trigger_data c"
    and "execute_from_node run s nodes edges c b = (c', r)"
  shows "trigger_data c' = trigger_data c"
proof (cases "topological_sort
                (filter (\<lambda>n. node_id n \<in> get_execution_subgraph s nodes edges b) nodes)
                (filter (\<lambda>e. source e \<in> get_execution_subgraph s nodes edges b
                            \<and> target e \<in> get_execution_subgraph s nodes edges b) edges)")
  case (Inl e)
  with assms(2) show ?thesis by (simp add: execute_from_node_def)
next
  case (Inr order)
  with assms(2) have "run_order run nodes edges order c = (c', r)"
    by (simp add: execute_from_node_def)
  with assms(1) show ?thesis by (rule run_order_trigger)
qed

lemma execute_entire_workflow_trigger:
  assumes "\<forall>n i c. shared_trigger_data (fst (run n i c)) = trigger_data c"
    and "execute_entire_workflow run nodes edges c = (c', r)"
  shows "trigger_data c' = trigger_data c"
proof (cases "topological_sort nodes edges")
  case (Inl e)
  with assms(2) show ?thesis by (simp add: execute_entire_workflow_def)
next
  case (Inr order)
  with assms(2) have "run_order run nodes edges order c = (c', r)"
    by (simp add: execute_entire_workflow_def)
  with assms(1) show ?thesis by (rule run_order_trigger)
qed

text \<open>
  C10 (default trigger payload). The context a run starts with, full or partial, has as
  its trigger data the supplied payload when that is truthy, and the canned default
  structure when the payload is absent (\<^verbatim>\<open>None\<close>), the empty mapping or any other falsy
  value; the message and the text of the default are \<^verbatim>\<open>Hello, how can I help you today?\<close>
  and its user is \<^verbatim>\<open>anonymous\<close>. The context that the run returns still has these trigger
  data when no executor changes them in place.
\<close>

theorem default_trigger:
  "trigger_data (initial_context wid eid trigger creds) =
     (if truthy trigger then trigger else default_trigger_data) \<and>
   trigger_data (initial_context wid eid JNone creds) = default_trigger_data \<and>
   trigger_data (initial_context wid eid (JDict []) creds) = default_trigger_data \<and>
   default_trigger_data =
     JDict [(''message'', JStr ''Hello, how can I help you today?''),
            (''text'', JStr ''Hello, how can I help you today?''),
            (''user'', JStr ''anonymous''),
            (''channel'', JStr []),
            (''timestamp'', JStr [])] \<and>
   ((\<forall>n i c. shared_trigger_data (fst (run n i c)) = trigger_data c) \<longrightarrow>
      trigger_data (execute_workflow run wid eid nodes edges trigger creds start_node_id) =
        trigger_data (initial_context wid eid trigger creds))"
proof (intro conjI impI)
  show "trigger_data (initial_context wid eid trigger creds) =
     (if truthy trigger then trigger else default_trigger_data)"
    by (simp add: initial_context_def new_context_def)
  show "trigger_data (initial_context wid eid JNone creds) = default_trigger_data"
    by (simp add: initial_context_def new_context_def)
  show "trigger_data (initial_context wid eid (JDict []) creds) = default_trigger_data"
    by (simp add: initial_context_def new_context_def)
  show "default_trigger_data =
     JDict [(''message'', JStr ''Hello, how can I help you today?''),
            (''text'', JStr ''Hello, how can I help you today?''),
            (''user'', JStr ''anonymous''),
            (''channel'', JStr []),
            (''timestamp'', JStr [])]"
    by (simp add: default_trigger_data_def)
next
  assume keep: "\<forall>n i c. shared_trigger_data (fst (run n i c)) = trigger_data c"
  let ?init = "initial_context wid eid trigger creds"
  let ?outcome = "case start_node_id of
               None \<Rightarrow> execute_entire_workflow run nodes edges ?init
             | Some s \<Rightarrow>
                 if s = [] then execute_entire_workflow run nodes edges ?init
                 else execute_from_node run s nodes edges ?init False"
  obtain c' r where o: "?outcome = (c', r)" by (rule prod.exhaust)
  have "trigger_data c' = trigger_data ?init"
  proof (cases start_node_id)
    case None
    with o show ?thesis by (simp add: execute_entire_workflow_trigger [OF keep])
  next
    case (Some s)
    show ?thesis
    proof (cases "s = []")
      case True
      with o Some show ?thesis by (simp add: execute_entire_workflow_trigger [OF keep])
    next
      case False
      with o Some show ?thesis by (simp add: execute_from_node_trigger [OF keep])
    qed
  qed
  moreover have "execute_workflow run wid eid nodes edges trigger creds start_node_id =
      (case r of None \<Rightarrow> complete c' ''completed'' | Some e \<Rightarrow> complete c' ''error'')"
    using o unfolding execute_workflow_def Let_def by simp
  ultimately show "trigger_data (execute_workflow run wid eid nodes edges trigger creds start_node_id) =
        trigger_data (initial_context wid eid trigger creds)"
    by (simp add: complete_def split: option.splits)
qed

theorem default_trigger_witness:
  "trigger_data (initial_context ''w'' ''x'' (JDict [(''message'', JStr ''hi'')]) JNone)
     = JDict [(''message'', JStr ''hi'')] \<and>
   trigger_data (execute_workflow run_ok ''w'' ''x'' example_nodes example_edges JNone JNone None)
     = default_trigger_data \<and>
   trigger_data (execute_workflow run_ok ''w'' ''x'' example_nodes example_edges (JDict []) JNone (Some ''B''))
     = default_trigger_data \<and>
   trigger_data (execute_workflow run_ok ''w'' ''x'' example_nodes example_edges
       (JDict [(''message'', JStr ''hi'')]) JNone None)
     = JDict [(''message'', JStr ''hi'')]"
proof -
  have keep: "\<forall>n i c. shared_trigger_data (fst (run_ok n i c)) = trigger_data c"
    by (simp add: run_ok_def unchanged_def)
  from keep
    default_trigger [of "''w''" "''x''" JNone JNone run_ok example_nodes example_edges None]
    default_trigger [of "''w''" "''x''" "JDict []" JNone run_ok example_nodes example_edges "Some ''B''"]
    default_trigger [of "''w''" "''x''" "JDict [(''message'', JStr ''hi'')]" JNone run_ok
      example_nodes example_edges None]
  show ?thesis by simp
qed


section \<open>Input aggregation\<close>

lemma gather_main_inputs:
  "snd (gather_inputs nid c es (inputs, main_inputs)) =
     main_inputs @ map (\<lambda>e. (source e, the (edge_payload c e)))
       (filter (\<lambda>e. edge_payload c e \<noteq> None) (filter (\<lambda>e. target e = nid \<and> target_input e = ''main'') es))"
  by (induction es arbitrary: inputs main_inputs) (auto split: option.splits)

lemma map_of_main_json:
  "map_of (case map_of i ''main'' of None \<Rightarrow> i | Some m \<Rightarrow> AList.update ''json'' m i) ''main'' = map_of i ''main''"
  by (simp add: update_conv' split: option.splits)

text \<open>
  C7 (input merge). When exactly two edges target the \<^verbatim>\<open>main\<close> handle of a node and carry
  the mappings \<open>d1\<close> and \<open>d2\<close>, in that order of the edge list, \<^verbatim>\<open>inputs['main']\<close> is the
  merge of \<open>d1\<close> and then \<open>d2\<close> into an empty mapping, so the later edge wins a key both
  have: for \<^verbatim>\<open>{a: 1}\<close> and \<^verbatim>\<open>{a: 2, b: 3}\<close> it is \<^verbatim>\<open>{a: 2, b: 3}\<close>. When exactly one edge
  targets \<^verbatim>\<open>main\<close>, \<^verbatim>\<open>inputs['main']\<close> is its payload as it is.
\<close>

theorem input_merge:
  "(filter (\<lambda>e. target e = nid \<and> target_input e = ''main'') edges = [e1, e2] \<and>
    edge_payload c e1 = Some (JDict d1) \<and> edge_payload c e2 = Some (JDict d2) \<longrightarrow>
      map_of (get_node_inputs nid edges c) ''main'' = Some (JDict (dict_merge (dict_merge [] d1) d2))) \<and>
   (filter (\<lambda>e. target e = nid \<and> target_input e = ''main'') edges = [e1] \<and>
    edge_payload c e1 = Some payload \<longrightarrow>
      map_of (get_node_inputs nid edges c) ''main'' = Some payload) \<and>
   dict_merge (dict_merge [] [(''a'', JInt 1)]) [(''a'', JInt 2), (''b'', JInt 3)]
     = [(''a'', JInt 2), (''b'', JInt 3)]"
proof (intro conjI impI)
  obtain inputs main_inputs where g: "gather_inputs nid c edges ([], []) = (inputs, main_inputs)"
    by (metis surj_pair)
  have mi: "main_inputs = map (\<lambda>e. (source e, the (edge_payload c e)))
       (filter (\<lambda>e. edge_payload c e \<noteq> None) (filter (\<lambda>e. target e = nid \<and> target_input e = ''main'') edges))"
    using gather_main_inputs [of nid c edges "[]" "[]"] g by simp
  { assume "filter (\<lambda>e. target e = nid \<and> target_input e = ''main'') edges = [e1, e2] \<and>
      edge_payload c e1 = Some (JDict d1) \<and> edge_payload c e2 = Some (JDict d2)"
    with mi have "main_inputs = [(source e1, JDict d1), (source e2, JDict d2)]" by simp
    with g show "map_of (get_node_inputs nid edges c) ''main'' = Some (JDict (dict_merge (dict_merge [] d1) d2))"
      unfolding get_node_inputs_def by (simp add: Let_def map_of_main_json update_conv') }
  { assume "filter (\<lambda>e. target e = nid \<and> target_input e = ''main'') edges = [e1] \<and>
      edge_payload c e1 = Some payload"
    with mi have "main_inputs = [(source e1, payload)]" by simp
    with g show "map_of (get_node_inputs nid edges c) ''main'' = Some payload"
      unfolding get_node_inputs_def by (simp add: Let_def map_of_main_json update_conv') }
  show "dict_merge (dict_merge [] [(''a'', JInt 1)]) [(''a'', JInt 2), (''b'', JInt 3)]
     = [(''a'', JInt 2), (''b'', JInt 3)]"
    by (simp add: dict_merge_def)
qed

theorem input_merge_witness:
  "filter (\<lambda>e. target e = ''X'' \<and> target_input e = ''main'') merge_edges = [merge_edges ! 0, merge_edges ! 1] \<and>
   edge_payload merge_context (merge_edges ! 0) = Some (JDict [(''a'', JInt 1)]) \<and>
   edge_payload merge_context (merge_edges ! 1) = Some (JDict [(''a'', JInt 2), (''b'', JInt 3)]) \<and>
   map_of (get_node_inputs ''X'' merge_edges merge_context) ''main''
     = Some (JDict [(''a'', JInt 2), (''b'', JInt 3)]) \<and>
   filter (\<lambda>e. target e = ''B'' \<and> target_input e = ''main'') merge_edges = [merge_edges ! 2] \<and>
   edge_payload merge_context (merge_edges ! 2) = Some (JDict [(''a'', JInt 1)]) \<and>
   map_of (get_node_inputs ''B'' merge_edges merge_context) ''main'' = Some (JDict [(''a'', JInt 1)])"
proof -
  have f2: "filter (\<lambda>e. target e = ''X'' \<and> target_input e = ''main'') merge_edges = [merge_edges ! 0, merge_edges ! 1]"
    by (simp add: merge_edges_def target_input_def)
  have p0: "edge_payload merge_context (merge_edges ! 0) = Some (JDict [(''a'', JInt 1)])"
    by (simp add: merge_edges_def merge_context_def edge_payload_def get_node_result_def source_output_def)
  have p1: "edge_payload merge_context (merge_edges ! 1) = Some (JDict [(''a'', JInt 2), (''b'', JInt 3)])"
    by (simp add: merge_edges_def merge_context_def edge_payload_def get_node_result_def source_output_def)
  have f1: "filter (\<lambda>e. target e = ''B'' \<and> target_input e = ''main'') merge_edges = [merge_edges ! 2]"
    by (simp add: merge_edges_def target_input_def)
  have p2: "edge_payload merge_context (merge_edges ! 2) = Some (JDict [(''a'', JInt 1)])"
    by (simp add: merge_edges_def merge_context_def edge_payload_def get_node_result_def source_output_def)
  from input_merge [of "''X''" merge_edges "merge_edges ! 0" "merge_edges ! 1" merge_context
      "[(''a'', JInt 1)]" "[(''a'', JInt 2), (''b'', JInt 3)]"] f2 p0 p1
  have r2: "map_of (get_node_inputs ''X'' merge_edges merge_context) ''main''
     = Some (JDict [(''a'', JInt 2), (''b'', JInt 3)])"
    by simp
  from input_merge [of "''B''" merge_edges "merge_edges ! 2" _ merge_context _ _ "JDict [(''a'', JInt 1)]"] f1 p2
  have r1: "map_of (get_node_inputs ''B'' merge_edges merge_context) ''main'' = Some (JDict [(''a'', JInt 1)])"
    by simp
  from f2 p0 p1 r2 f1 p2 r1 show ?thesis by simp
qed

section \<open>Template expressions\<close>

text \<open>
  C5 (expression round trip), as the code has it. Against an evaluator whose \<^verbatim>\<open>json\<close> is
  \<^verbatim>\<open>{user: {name: "Ada"}}\<close>, \<^verbatim>\<open>"${{ json.user.name }}"\<close> evaluates to \<^verbatim>\<open>"Ada"\<close>. The path
  \<^verbatim>\<open>json.missing\<close> evaluates to \<^verbatim>\<open>None\<close>, and \<^verbatim>\<open>evaluate\<close> substitutes \<^verbatim>\<open>str(None)\<close> for the
  block: \<^verbatim>\<open>"${{ json.missing }}"\<close> evaluates to the string \<^verbatim>\<open>"None"\<close>. No exception is raised.
\<close>

theorem expression_round_trip:
  "evaluate \<lparr>results = r, json_data = ada_json, vars = v\<rparr> (JStr ''${{ json.user.name }}'')
     = Inr (Value (JStr ''Ada'')) \<and>
   evaluate_expression \<lparr>results = r, json_data = ada_json, vars = v\<rparr> ''json.missing'' = Inr JNone \<and>
   evaluate \<lparr>results = r, json_data = ada_json, vars = v\<rparr> (JStr ''${{ json.missing }}'')
     = Inr (Value (JStr ''None''))"
  by code_simp

text \<open>
  The sentence of C5 that \<^verbatim>\<open>"${{ json.missing }}"\<close> gives an empty or none result fails: the
  result is the string \<^verbatim>\<open>"None"\<close>, of four characters, which is truthy.
\<close>

theorem expression_missing_counterexample:
  "evaluate \<lparr>results = [], json_data = ada_json, vars = JDict []\<rparr> (JStr ''${{ json.missing }}'')
     = Inr (Value (JStr ''None'')) \<and>
   truthy (JStr ''None'')"
  by code_simp

text \<open>
  An expression that starts with \<^verbatim>\<open>$json\<close> is taken by the first test of
  \<^verbatim>\<open>_evaluate_expression\<close>, so the later test for \<^verbatim>\<open>$json.<nodeId>\<close> is never reached.
\<close>

lemma json_prefix_first:
  "starts_with (py_strip e) ''$json'' \<Longrightarrow>
   evaluate_expression self e = Inr (evaluate_json_path self (py_strip e))"
  by (simp add: evaluate_expression_def Let_def)

text \<open>
  C4 (reference to the result of a node), where the code departs from it. With an empty
  \<^verbatim>\<open>json\<close>, \<^verbatim>\<open>"${{ $json.n1.x }}"\<close> evaluates to \<^verbatim>\<open>"None"\<close> whatever the node results are:
  the path \<^verbatim>\<open>n1.x\<close> is looked up in \<^verbatim>\<open>json\<close>. The lookup the claim describes,
  \<^verbatim>\<open>_get_node_output('n1', 'x')\<close>, gives 5 when the result of \<^verbatim>\<open>n1\<close> is
  \<^verbatim>\<open>{main: {x: 5}}\<close>.
\<close>

theorem node_reference_not_followed:
  "evaluate \<lparr>results = r, json_data = JDict [], vars = v\<rparr> (JStr ''${{ $json.n1.x }}'')
     = Inr (Value (JStr ''None'')) \<and>
   get_node_output \<lparr>results = n1_results, json_data = JDict [], vars = JDict []\<rparr> ''n1'' (Some ''x'')
     = JInt 5"
  by code_simp

section \<open>The readme viewer\<close>




section \<open>The filter node\<close>

text \<open>
  C8 (filter semantics). For the filter node with field \<^verbatim>\<open>status\<close>, operator \<^verbatim>\<open>equals\<close> and
  value \<^verbatim>\<open>active\<close>, whose inputs pass \<^verbatim>\<open>validate_inputs\<close>: on the \<^verbatim>\<open>main\<close> input
  \<^verbatim>\<open>{status: "active"}\<close> it returns \<^verbatim>\<open>{main: {status: "active"}}\<close>, and on
  \<^verbatim>\<open>{status: "inactive"}\<close> it returns \<^verbatim>\<open>{main: None}\<close>. When \<^verbatim>\<open>float\<close> raises on the field
  value or on the expected value, \<^verbatim>\<open>greaterThan\<close> and \<^verbatim>\<open>lessThan\<close> evaluate to \<^verbatim>\<open>False\<close>.
\<close>

theorem filter_semantics:
  "(validate_inputs inputs [''main''] = None \<and>
    map_of props ''field'' = Some (JStr ''status'') \<and>
    map_of props ''operator'' = Some (JStr ''equals'') \<and>
    map_of props ''value'' = Some (JStr ''active'') \<longrightarrow>
      (map_of inputs ''main'' = Some (JDict [(''status'', JStr ''active'')]) \<longrightarrow>
         execute_filter F validate_inputs props inputs
           = Inr (JDict [(''main'', JDict [(''status'', JStr ''active'')])])) \<and>
      (map_of inputs ''main'' = Some (JDict [(''status'', JStr ''inactive'')]) \<longrightarrow>
         execute_filter F validate_inputs props inputs = Inr (JDict [(''main'', JNone)]))) \<and>
   ((\<exists>e. py_float F (Json field_value) = Inl e) \<or> (\<exists>e. py_float F (Json expected_value) = Inl e) \<longrightarrow>
      evaluate_filter F field_value (JStr ''greaterThan'') expected_value = False \<and>
      evaluate_filter F field_value (JStr ''lessThan'') expected_value = False)"
proof -
  have eq: "evaluate_filter F (JStr ''active'') (JStr ''equals'') (JStr ''active'') = True"
    by (simp add: evaluate_filter_def)
  have "py_lower ''inactive'' \<noteq> py_lower ''active''"
    by (simp add: py_lower_def)
  then have ne: "evaluate_filter F (JStr ''inactive'') (JStr ''equals'') (JStr ''active'') = False"
    by (simp add: evaluate_filter_def py_str_def)
  have num: "(\<exists>e. py_float F (Json field_value) = Inl e) \<or> (\<exists>e. py_float F (Json expected_value) = Inl e) \<longrightarrow>
      evaluate_filter F field_value (JStr ''greaterThan'') expected_value = False \<and>
      evaluate_filter F field_value (JStr ''lessThan'') expected_value = False"
    by (auto simp: evaluate_filter_def split: sum.splits)
  show ?thesis
    using eq ne num
    by (simp add: execute_filter_def get_property_def dict_get_def Let_def)
qed

theorem filter_semantics_witness:
  "require_inputs [(''main'', JDict [(''status'', JStr ''active'')])] [''main''] = None \<and>
   map_of status_filter ''field'' = Some (JStr ''status'') \<and>
   map_of status_filter ''operator'' = Some (JStr ''equals'') \<and>
   map_of status_filter ''value'' = Some (JStr ''active'') \<and>
   execute_filter exact_floats require_inputs status_filter [(''main'', JDict [(''status'', JStr ''active'')])]
     = Inr (JDict [(''main'', JDict [(''status'', JStr ''active'')])]) \<and>
   execute_filter exact_floats require_inputs status_filter [(''main'', JDict [(''status'', JStr ''inactive'')])]
     = Inr (JDict [(''main'', JNone)]) \<and>
   py_float exact_floats (Json (JStr ''abc'')) = Inl (ValueError ''could not convert string to float'') \<and>
   evaluate_filter exact_floats (JStr ''abc'') (JStr ''greaterThan'') (JInt 5) = False \<and>
   evaluate_filter exact_floats (JInt 5) (JStr ''lessThan'') (JStr ''abc'') = False"
proof -
  have v: "require_inputs [(''main'', JDict [(''status'', JStr ''active'')])] [''main''] = None"
    "require_inputs [(''main'', JDict [(''status'', JStr ''inactive'')])] [''main''] = None"
    by (simp_all add: require_inputs_def)
  have p: "map_of status_filter ''field'' = Some (JStr ''status'')"
    "map_of status_filter ''operator'' = Some (JStr ''equals'')"
    "map_of status_filter ''value'' = Some (JStr ''active'')"
    by (simp_all add: status_filter_def)
  have n: "py_float exact_floats (Json (JStr ''abc'')) = Inl (ValueError ''could not convert string to float'')"
    by code_simp
  from filter_semantics [of require_inputs "[(''main'', JDict [(''status'', JStr ''active'')])]" status_filter
      exact_floats "JStr ''abc''" "JInt 5"]
    filter_semantics [of require_inputs "[(''main'', JDict [(''status'', JStr ''inactive'')])]" status_filter
      exact_floats "JInt 5" "JStr ''abc''"]
    v p n
  show ?thesis by simp
qed

section \<open>Division in template expressions\<close>

lemma split_on_nonempty: "split_on P s \<noteq> []"
  by (induction s) (auto split: list.splits)

lemma split_on_length: "py_in [c] s \<Longrightarrow> 2 \<le> length (split_on (\<lambda>x. x = c) s)"
proof (induction s)
  case Nil then show ?case by simp
next
  case (Cons x xs)
  show ?case
  proof (cases "x = c")
    case True
    then show ?thesis using split_on_nonempty [of "\<lambda>x. x = c" xs]
      by (cases "split_on (\<lambda>x. x = c) xs") auto
  next
    case False
    with Cons.prems have "py_in [c] xs" by simp
    from Cons.IH [OF this] False show ?thesis
      by (auto split: list.splits)
  qed
qed

text \<open>
  The division branch, by the value of the second part: the result is 0 when its
  \<^verbatim>\<open>float\<close> is zero, and the handler returns the expression when its \<^verbatim>\<open>float\<close> raises.
\<close>

lemma division_branch:
  assumes "\<not> py_in ''+'' s" and "\<not> py_in ''-'' s" and "\<not> py_in ''*'' s" and "py_in ''/'' s"
  shows "javascript_body F ev py_eval s =
           (case py_float F (ev (py_strip (split_on (\<lambda>c. c = CHR ''/'') s ! 1))) of
              Inl e \<Rightarrow> Inl e
            | Inr y \<Rightarrow>
                if \<not> float_is_zero F y
                then (case py_float F (ev (py_strip (split_on (\<lambda>c. c = CHR ''/'') s ! 0))) of
                        Inl e \<Rightarrow> Inl e
                      | Inr x \<Rightarrow> Inr (Float (float_div F x y)))
                else Inr (Json (JInt 0)))"
proof -
  from split_on_length [OF assms(4)] have len: "2 \<le> length (split_on (\<lambda>c. c = CHR ''/'') s)" .
  then have v: "values_of ev CHR ''/'' s ! 1 = ev (py_strip (split_on (\<lambda>c. c = CHR ''/'') s ! 1))"
    "values_of ev CHR ''/'' s ! 0 = ev (py_strip (split_on (\<lambda>c. c = CHR ''/'') s ! 0))"
    unfolding values_of_def by (simp_all add: split_on_nonempty)
  from len have l: "2 \<le> length (values_of ev CHR ''/'' s)"
    unfolding values_of_def by simp
  show ?thesis
    unfolding javascript_body_def using assms l
    by (simp only: v if_True if_False split: sum.splits)
qed

text \<open>
  The literal \<^verbatim>\<open>0\<close> is no number for \<^verbatim>\<open>_evaluate_expression\<close>: it is a path into the input,
  and gives \<^verbatim>\<open>None\<close> when the input is a mapping without the key \<^verbatim>\<open>0\<close>.
\<close>

lemma literal_zero:
  assumes "json_data self = JDict d" and "map_of d ''0'' = None"
  shows "evaluate_part nested self ''0'' = Json JNone"
proof -
  have "py_strip ''0'' = ''0''"
    by (simp add: py_strip_def strip_chars_def is_space_def)
  moreover have "\<not> has_operator ''0''"
    by (simp add: has_operator_def)
  moreover have "path_parts ''0'' = [''0'']"
    by (simp add: path_parts_def strip_chars_def)
  ultimately show ?thesis
    using assms
    by (simp add: evaluate_part_def evaluate_expression_def evaluate_path_def get_nested_value_def Let_def)
qed

text \<open>
  C9 (division by zero), as the code has it. Let the expression, after the substitution
  of the references, hold none of \<^verbatim>\<open>+\<close>, \<^verbatim>\<open>-\<close>, \<^verbatim>\<open>*\<close> and hold \<^verbatim>\<open>/\<close>, so that the evaluator
  splits it at the division operator. No exception is raised. When the second part,
  evaluated as an expression of its own, gives a value whose \<^verbatim>\<open>float\<close> is zero, the result
  is the integer 0. When it gives \<^verbatim>\<open>None\<close>, the result is the text of the expression after
  the substitution; this is the case of a second part that is the literal \<^verbatim>\<open>0\<close>, written
  so or put there by the substitution of a reference to a zero, when the input is a
  mapping without the key \<^verbatim>\<open>0\<close>.
\<close>

theorem division_by_zero:
  assumes "\<not> py_in ''+'' (substituted self expr)" and "\<not> py_in ''-'' (substituted self expr)"
    and "\<not> py_in ''*'' (substituted self expr)" and "py_in ''/'' (substituted self expr)"
  shows "(\<forall>y. py_float F (evaluate_part nested self
                            (py_strip (split_on (\<lambda>c. c = CHR ''/'') (substituted self expr) ! 1))) = Inr y
              \<and> float_is_zero F y \<longrightarrow>
            evaluate_javascript F nested py_eval self expr = Json (JInt 0)) \<and>
         (evaluate_part nested self
            (py_strip (split_on (\<lambda>c. c = CHR ''/'') (substituted self expr) ! 1)) = Json JNone \<longrightarrow>
            evaluate_javascript F nested py_eval self expr = Json (JStr (substituted self expr))) \<and>
         (\<forall>d. py_strip (split_on (\<lambda>c. c = CHR ''/'') (substituted self expr) ! 1) = ''0''
              \<and> json_data self = JDict d \<and> map_of d ''0'' = None \<longrightarrow>
            evaluate_javascript F nested py_eval self expr = Json (JStr (substituted self expr)))"
proof -
  let ?e = "substituted self expr"
  let ?p = "py_strip (split_on (\<lambda>c. c = CHR ''/'') ?e ! 1)"
  note b = division_branch [OF assms, of F "evaluate_part nested self" py_eval]
  have zero: "evaluate_javascript F nested py_eval self expr = Json (JInt 0)"
    if "py_float F (evaluate_part nested self ?p) = Inr y" and "float_is_zero F y" for y
    using that b unfolding evaluate_javascript_def by simp
  have none: "evaluate_javascript F nested py_eval self expr = Json (JStr ?e)"
    if "evaluate_part nested self ?p = Json JNone"
    using that b unfolding evaluate_javascript_def by (simp add: py_float_def)
  have lit: "evaluate_javascript F nested py_eval self expr = Json (JStr ?e)"
    if "?p = ''0''" and "json_data self = JDict d" and "map_of d ''0'' = None" for d
    using none literal_zero [OF that(2,3), of nested] that(1) by simp
  from zero none lit show ?thesis by blast
qed

theorem division_by_zero_witness:
  "substituted ratio_input ''a / b'' = ''a / b'' \<and>
   evaluate_part nested_fails ratio_input ''b'' = Json (JInt 0) \<and>
   py_float exact_floats (Json (JInt 0)) = Inr 0 \<and>
   float_is_zero exact_floats 0 \<and>
   evaluate_javascript exact_floats nested_fails no_eval ratio_input ''a / b'' = Json (JInt 0)"
proof -
  have s: "substituted ratio_input ''a / b'' = ''a / b''"
    by code_simp
  have h: "\<not> py_in ''+'' ''a / b''" "\<not> py_in ''-'' ''a / b''" "\<not> py_in ''*'' ''a / b''" "py_in ''/'' ''a / b''"
    by simp_all
  have p: "split_on (\<lambda>c. c = CHR ''/'') ''a / b'' ! 1 = '' b''"
    by simp
  have st: "py_strip '' b'' = ''b''"
    by (simp add: py_strip_def strip_chars_def is_space_def)
  have ev: "evaluate_part nested_fails ratio_input ''b'' = Json (JInt 0)"
    by code_simp
  have f: "py_float exact_floats (Json (JInt 0)) = Inr 0"
    by (simp add: py_float_def float_of_int_or_raise_def exact_floats_def)
  have z: "float_is_zero exact_floats 0"
    by (simp add: exact_floats_def)
  from division_by_zero [of ratio_input "''a / b''" exact_floats nested_fails no_eval] s h p st ev f z
  show ?thesis by simp
qed

text \<open>
  The sentence of C9 fails for a divisor that is a reference to a zero or the literal
  \<^verbatim>\<open>0\<close>. With the input \<^verbatim>\<open>{a: 10, b: 0}\<close>, the expression \<^verbatim>\<open>a / $json.b\<close> goes to
  \<^verbatim>\<open>_evaluate_javascript\<close>, its reference has the value 0 and the substitution leaves
  \<^verbatim>\<open>a / 0\<close>, which is split at the division operator; the part \<^verbatim>\<open>0\<close> evaluates to \<^verbatim>\<open>None\<close>,
  and the result is the string \<^verbatim>\<open>a / 0\<close>, not 0. In the same way \<^verbatim>\<open>10 / 0\<close> gives the string
  \<^verbatim>\<open>10 / 0\<close>.
\<close>

theorem division_by_zero_counterexample:
  "evaluate_expression ratio_input ''a / $json.b'' = Inl (Javascript ''a / $json.b'') \<and>
   evaluate_json_path ratio_input ''json.b'' = JInt 0 \<and>
   substituted ratio_input ''a / $json.b'' = ''a / 0'' \<and>
   evaluate_expression ratio_input ''0'' = Inr JNone \<and>
   evaluate_javascript exact_floats nested_fails no_eval ratio_input ''a / $json.b''
     = Json (JStr ''a / 0'') \<and>
   evaluate_javascript exact_floats nested_fails no_eval ratio_input ''a / $json.b''
     \<noteq> Json (JInt 0) \<and>
   evaluate_javascript exact_floats nested_fails no_eval ratio_input ''10 / 0''
     = Json (JStr ''10 / 0'')"
proof -
  have 1: "evaluate_expression ratio_input ''a / $json.b'' = Inl (Javascript ''a / $json.b'')"
    by code_simp
  have 2: "evaluate_json_path ratio_input ''json.b'' = JInt 0"
    by code_simp
  have 3: "substituted ratio_input ''a / $json.b'' = ''a / 0''"
    by code_simp
  have 5: "evaluate_expression ratio_input ''0'' = Inr JNone"
    by code_simp
  have 6: "evaluate_javascript exact_floats nested_fails no_eval ratio_input ''a / $json.b''
     = Json (JStr ''a / 0'')"
    by code_simp
  have 7: "evaluate_javascript exact_floats nested_fails no_eval ratio_input ''10 / 0''
     = Json (JStr ''10 / 0'')"
    by code_simp
  from 1 2 3 5 6 7 show ?thesis by simp
qed

end
